theory Spec2Isabelle
  imports Complex_Main "HOL-Library.Sublist"
begin

section \<open>Values and errors\<close>

text \<open>
  The sequences handled by the humanizer are Python lists. Their elements are
  amino-acid tokens (\<open>str\<close>), but the code also stores a similarity score
  (\<open>float\<close>) or \<open>None\<close> in places typed for a token, so the elements are
  modelled as dynamically typed values. Floats are modelled as exact rationals.
\<close>

datatype pyval = PStr string | PFloat rat | PNone

text \<open>
  Exceptions. \<open>CannotBeAnnotated s\<close> is \<open>RuntimeError(f"{s} cannot be annotated")\<close>
  and \<open>LengthsAreDifferent m n\<close> is the \<open>RuntimeError\<close> of the scorer's
  constructor; the others are Python's built-in exceptions of the same name.
\<close>

datatype error =
    CannotBeAnnotated string
  | LengthsAreDifferent nat nat
  | ZeroDivisionError
  | IndexError
  | ValueError
  | AttributeError
  | TypeError

section \<open>v\_gene\_scorer.py\<close>

text \<open>
  The class \<open>Annotation\<close> is declared outside the files at hand; the two
  attributes the code reads are its fields here.
\<close>

record Annotation =
  segmented_positions :: "string list"
  v_gene_end :: int

text \<open>
  \<open>calc_score\<close>: the loop over \<open>range(annotation.v_gene_end + 1)\<close> with the
  counters \<open>same\<close> and \<open>total\<close>. \<open>seq_1\<close> is a list of tokens, \<open>seq_2\<close> a
  string whose \<open>i\<close>-th character is compared as a one-character string. Both
  subscripts are evaluated in every iteration that is reached (the second one
  in the condition or in the comparison), and either raises \<open>IndexError\<close> out
  of range.
\<close>

fun calc_score_loop :: "pyval list \<Rightarrow> string \<Rightarrow> nat list \<Rightarrow> nat \<times> nat \<Rightarrow> error + nat \<times> nat" where
  "calc_score_loop seq_1 seq_2 [] (same, total') = Inr (same, total')"
| "calc_score_loop seq_1 seq_2 (i # rest) (same, total') =
     (if length seq_1 \<le> i \<or> length seq_2 \<le> i then Inl IndexError
      else if seq_1 ! i \<noteq> PStr ''X'' \<or> [seq_2 ! i] \<noteq> ''X''
      then calc_score_loop seq_1 seq_2 rest
             (if seq_1 ! i = PStr [seq_2 ! i] then Suc same else same, Suc total')
      else calc_score_loop seq_1 seq_2 rest (same, total'))"

definition calc_score :: "pyval list \<Rightarrow> string \<Rightarrow> Annotation \<Rightarrow> error + rat" where
  "calc_score seq_1 seq_2 annotation =
     (case calc_score_loop seq_1 seq_2 [0..<nat (v_gene_end annotation + 1)] (0, 0) of
        Inl e \<Rightarrow> Inl e
      | Inr (same, total') \<Rightarrow>
          if total' = 0 then Inl ZeroDivisionError
          else Inr (rat_of_nat same / rat_of_nat total'))"

definition is_v_gene_score_less :: "rat option \<Rightarrow> rat option \<Rightarrow> bool" where
  "is_v_gene_score_less first second =
     (case first of
        None \<Rightarrow> True
      | Some a \<Rightarrow> (case second of None \<Rightarrow> True | Some b \<Rightarrow> a < b))"

subsection \<open>The similarity as the specification words it\<close>

text \<open>
  A position is informative unless both sequences hold the wildcard there; the
  similarity is the number of informative positions with equal tokens divided
  by the number of informative positions.
\<close>

definition informative :: "pyval list \<Rightarrow> string \<Rightarrow> nat \<Rightarrow> bool" where
  "informative seq_1 seq_2 i = (\<not> (seq_1 ! i = PStr ''X'' \<and> seq_2 ! i = CHR ''X''))"

definition informative_positions :: "pyval list \<Rightarrow> string \<Rightarrow> Annotation \<Rightarrow> nat list" where
  "informative_positions seq_1 seq_2 annotation =
     filter (informative seq_1 seq_2) [0..<nat (v_gene_end annotation + 1)]"

definition matching_positions :: "pyval list \<Rightarrow> string \<Rightarrow> Annotation \<Rightarrow> nat list" where
  "matching_positions seq_1 seq_2 annotation =
     filter (\<lambda>i. seq_1 ! i = PStr [seq_2 ! i]) (informative_positions seq_1 seq_2 annotation)"

definition similarity :: "pyval list \<Rightarrow> string \<Rightarrow> Annotation \<Rightarrow> rat" where
  "similarity seq_1 seq_2 annotation =
     rat_of_nat (length (matching_positions seq_1 seq_2 annotation))
       / rat_of_nat (length (informative_positions seq_1 seq_2 annotation))"

subsection \<open>The class VGeneScorer\<close>

record VGeneScorer =
  scorer_annotation :: Annotation
  human_samples :: "string list"
  labels :: "string list"

definition VGeneScorer_init :: "Annotation \<Rightarrow> string list \<Rightarrow> string list \<Rightarrow> error + VGeneScorer" where
  "VGeneScorer_init ann samples labs =
     (if length samples \<noteq> length labs
      then Inl (LengthsAreDifferent (length samples) (length labs))
      else Inr \<lparr>scorer_annotation = ann, human_samples = samples, labels = labs\<rparr>)"

text \<open>
  \<open>pool.map(calc_score_wrapper, self.human_samples)\<close>: the worker processes only
  evaluate \<open>calc_score(sequence, sample, annotation)\<close> for every sample; the
  result list is in the order of the samples, and an exception raised by a
  worker is raised by \<open>map\<close>.
\<close>

fun pool_map :: "('a \<Rightarrow> error + 'b) \<Rightarrow> 'a list \<Rightarrow> error + 'b list" where
  "pool_map f [] = Inr []"
| "pool_map f (x # xs) =
     (case f x of
        Inl e \<Rightarrow> Inl e
      | Inr y \<Rightarrow> (case pool_map f xs of Inl e \<Rightarrow> Inl e | Inr ys \<Rightarrow> Inr (y # ys)))"

text \<open>
  \<open>sorted(xs, key=key, reverse=True)\<close>. Python's sort is stable, and with
  \<open>reverse=True\<close> it sorts the reversed list in ascending order and reverses
  the result, so that elements with equal keys keep their original order.
  \<open>sort_key\<close> is the stable insertion sort of the library.
\<close>

definition sorted_reverse :: "('a \<Rightarrow> rat) \<Rightarrow> 'a list \<Rightarrow> 'a list" where
  "sorted_reverse key xs = rev (sort_key key (rev xs))"

text \<open>The loop that appends \<open>(self.human_samples[idx], v_gene_score, self.labels[idx])\<close>.\<close>

fun build_result :: "VGeneScorer \<Rightarrow> (nat \<times> rat) list \<Rightarrow> error + (string \<times> rat \<times> string) list" where
  "build_result self [] = Inr []"
| "build_result self ((idx, v_gene_score) # rest) =
     (if length (human_samples self) \<le> idx \<or> length (labels self) \<le> idx then Inl IndexError
      else case build_result self rest of
             Inl e \<Rightarrow> Inl e
           | Inr result \<Rightarrow>
               Inr ((human_samples self ! idx, v_gene_score, labels self ! idx) # result))"

definition VGeneScorer_query :: "VGeneScorer \<Rightarrow> pyval list \<Rightarrow> error + (string \<times> rat \<times> string) list" where
  "VGeneScorer_query self sequence =
     (case pool_map (\<lambda>sample. calc_score sequence sample (scorer_annotation self))
             (human_samples self) of
        Inl e \<Rightarrow> Inl e
      | Inr v_gene_scores \<Rightarrow>
          build_result self (take 2 (sorted_reverse snd (enumerate 0 v_gene_scores))))"

text \<open>
  The order in which \<open>query\<close> ranks two entries \<open>(idx, score)\<close>: the higher
  score first, and of two equal scores the smaller population index first.
\<close>

definition ranks_before :: "nat \<times> rat \<Rightarrow> nat \<times> rat \<Rightarrow> bool" where
  "ranks_before a b = (snd b < snd a \<or> (snd a = snd b \<and> fst a < fst b))"

section \<open>reverse\_humanizer.py\<close>

text \<open>
  \<open>SequenceChange\<close> and \<open>IterationDetails\<close> are declared outside the files at
  hand. Their fields are in the order of the constructor calls of
  \<open>reverse_humanizer.py\<close>: position (or \<open>None\<close>), the old token, the new token,
  the model's value; and iteration number, model value, V-gene score, change.
\<close>

record SequenceChange =
  position :: "nat option"
  old_aa :: pyval
  aa :: pyval
  change_value :: rat

record IterationDetails =
  it_index :: int
  it_model_metric :: rat
  it_v_gene_score :: "rat option"
  it_change :: "SequenceChange option"

text \<open>
  Modelled from the spec: the method \<open>SequenceChange.is_defined\<close> is declared in
  \<open>abstract_humanizer.py\<close>, which is not at hand. The specification calls a
  change with position none the null change, "no improving change found".
\<close>

definition is_defined :: "SequenceChange \<Rightarrow> bool" where
  "is_defined c = (position c \<noteq> None)"

text \<open>
  The humanizer object. \<open>model_wrapper.model.predict_proba(sequence)[1]\<close> is
  the field \<open>predict_proba\<close>, a function of the sequence. The last five fields
  are what \<open>reverse_humanizer.py\<close> uses and other files define:
  \<open>annotate_single\<close>, the inherited method \<open>_calc_metrics\<close> (model value and
  V-gene score of a sequence against the human sample, the score possibly
  absent), the comparator \<open>is_change_less\<close>, \<open>seq_to_str\<close> and the
  configuration value \<open>MAX_CHANGES\<close>. They are parameters of the model.
\<close>

record ModelWrapper =
  annotation :: Annotation
  predict_proba :: "pyval list \<Rightarrow> rat"

record ReverseHumanizer =
  model_wrapper :: ModelWrapper
  v_gene_scorer :: "VGeneScorer option"
  skip_positions :: "string list"
  use_aa_similarity :: bool
  annotate_single :: "string \<Rightarrow> Annotation \<Rightarrow> string list option"
  calc_metrics :: "pyval list \<Rightarrow> pyval list \<Rightarrow> rat \<times> rat option"
  is_change_less :: "SequenceChange \<Rightarrow> SequenceChange \<Rightarrow> bool \<Rightarrow> bool"
  seq_to_str :: "pyval list \<Rightarrow> bool \<Rightarrow> string"
  max_changes :: int

text \<open>
  \<open>_test_single_change\<close> mutates the list it is given; the model returns the
  list as it is when the method returns, next to the result.
\<close>

definition test_single_change ::
  "ReverseHumanizer \<Rightarrow> pyval list \<Rightarrow> nat \<Rightarrow> pyval \<Rightarrow> error + SequenceChange \<times> pyval list" where
  "test_single_change self sequence column_idx new_aa =
     (if length sequence \<le> column_idx then Inl IndexError
      else
        let aa_backup = sequence ! column_idx in
        if aa_backup = new_aa
        then Inr (\<lparr>position = None, old_aa = aa_backup, aa = PNone, change_value = - 1\<rparr>, sequence)
        else
          let sequence1 = sequence[column_idx := new_aa];
              new_value = predict_proba (model_wrapper self) sequence1;
              candidate_change =
                \<lparr>position = Some column_idx, old_aa = aa_backup, aa = new_aa, change_value = new_value\<rparr>;
              sequence2 = sequence1[column_idx := aa_backup]
          in Inr (candidate_change, sequence2))"

fun find_best_loop ::
  "ReverseHumanizer \<Rightarrow> (nat \<times> string) list \<Rightarrow> pyval list \<Rightarrow> pyval list \<Rightarrow> SequenceChange
    \<Rightarrow> error + SequenceChange \<times> pyval list" where
  "find_best_loop self [] current_seq original_seq best_change = Inr (best_change, current_seq)"
| "find_best_loop self ((idx, column_name) # rest) current_seq original_seq best_change =
     (if column_name \<in> set (skip_positions self)
      then find_best_loop self rest current_seq original_seq best_change
      else if length original_seq \<le> idx then Inl IndexError
      else
        case test_single_change self current_seq idx (original_seq ! idx) of
          Inl e \<Rightarrow> Inl e
        | Inr (candidate_change, current_seq') \<Rightarrow>
            find_best_loop self rest current_seq' original_seq
              (if is_change_less self best_change candidate_change (use_aa_similarity self)
               then candidate_change else best_change))"

definition find_best_change ::
  "ReverseHumanizer \<Rightarrow> pyval list \<Rightarrow> pyval list \<Rightarrow> error + SequenceChange \<times> pyval list" where
  "find_best_change self current_seq original_seq =
     find_best_loop self
       (enumerate 0 (segmented_positions (annotation (model_wrapper self))))
       current_seq original_seq
       \<lparr>position = None, old_aa = PNone, aa = PNone, change_value = - 1\<rparr>"

subsection \<open>The method query\<close>

text \<open>The unpacking \<open>human_sample, _ = ...\<close> of a list: exactly two elements, or \<open>ValueError\<close>.\<close>

definition unpack_pair :: "'a list \<Rightarrow> error + 'a \<times> 'a" where
  "unpack_pair xs = (case xs of [a, b] \<Rightarrow> Inr (a, b) | _ \<Rightarrow> Inl ValueError)"

text \<open>
  Lines 50 to 54: the value of \<open>human_sample\<close> that the rest of \<open>query\<close>
  subscripts. An empty string, \<open>None\<close> and an empty list are false in Python.
  An annotated sample is a list of tokens. What the unpacking binds to
  \<open>human_sample\<close> is the first element of the scorer's result list, a tuple
  (sample, score, label).
\<close>

definition from_v_gene_scorer :: "ReverseHumanizer \<Rightarrow> pyval list \<Rightarrow> error + pyval list" where
  "from_v_gene_scorer self current_seq =
     (case v_gene_scorer self of
        None \<Rightarrow> Inl AttributeError
      | Some scorer \<Rightarrow>
          (case VGeneScorer_query scorer current_seq of
             Inl e \<Rightarrow> Inl e
           | Inr result \<Rightarrow>
               (case unpack_pair result of
                  Inl e \<Rightarrow> Inl e
                | Inr ((sample, score, label), _) \<Rightarrow> Inr [PStr sample, PFloat score, PStr label])))"

definition select_human_sample ::
  "ReverseHumanizer \<Rightarrow> pyval list \<Rightarrow> string option \<Rightarrow> error + pyval list" where
  "select_human_sample self current_seq human_sample =
     (let annotated =
            (case human_sample of
               None \<Rightarrow> None
             | Some s \<Rightarrow>
                 if s = [] then None
                 else annotate_single self s (annotation (model_wrapper self)))
      in case annotated of
           None \<Rightarrow> from_v_gene_scorer self current_seq
         | Some tokens \<Rightarrow>
             if tokens = [] then from_v_gene_scorer self current_seq
             else Inr (map PStr tokens))"

text \<open>
  Lines 56 to 58: the loop over \<open>enumerate(segmented_positions)\<close> that writes
  \<open>human_sample[idx]\<close> to \<open>current_seq[idx]\<close> for the columns whose name starts
  with \<open>fwr\<close>.
\<close>

fun make_chimeric :: "(nat \<times> string) list \<Rightarrow> pyval list \<Rightarrow> pyval list \<Rightarrow> error + pyval list" where
  "make_chimeric [] human_sample current_seq = Inr current_seq"
| "make_chimeric ((idx, column_name) # rest) human_sample current_seq =
     (if prefix ''fwr'' column_name
      then if length human_sample \<le> idx \<or> length current_seq \<le> idx then Inl IndexError
           else make_chimeric rest human_sample (current_seq[idx := human_sample ! idx])
      else make_chimeric rest human_sample current_seq)"

text \<open>
  One pass through the body of the \<open>for it in range(...)\<close> loop: \<open>Next\<close> when
  the loop goes on, \<open>Break\<close> when it is left. The state is \<open>current_seq\<close> and
  \<open>iterations\<close>.
\<close>

datatype 'a flow = Next 'a | Break 'a

definition round_body ::
  "ReverseHumanizer \<Rightarrow> rat \<Rightarrow> rat \<Rightarrow> pyval list \<Rightarrow> pyval list \<Rightarrow> int
    \<Rightarrow> pyval list \<times> IterationDetails list
    \<Rightarrow> error + (pyval list \<times> IterationDetails list) flow" where
  "round_body self target_model_metric target_v_gene_score original_seq human_sample it state =
     (case state of (current_seq, iterations) \<Rightarrow>
        let (current_value, v_gene_score) = calc_metrics self current_seq human_sample in
        case find_best_change self current_seq original_seq of
          Inl e \<Rightarrow> Inl e
        | Inr (best_change, current_seq) \<Rightarrow>
            if is_defined best_change then
              (case position best_change of
                 None \<Rightarrow> Inl TypeError
               | Some p \<Rightarrow>
                   if length current_seq \<le> p then Inl IndexError
                   else
                     let prev_aa = current_seq ! p;
                         current_seq1 = current_seq[p := aa best_change];
                         (best_value, v_gene_score) = calc_metrics self current_seq1 human_sample
                     in
                       if \<not> (target_model_metric \<le> best_value
                             \<and> is_v_gene_score_less (Some target_v_gene_score) v_gene_score)
                       then Inr (Break (current_seq1[p := prev_aa], iterations))
                       else if length (segmented_positions (annotation (model_wrapper self))) \<le> p
                       then Inl IndexError
                       else Inr (Next (current_seq1,
                              iterations @ [\<lparr>it_index = it, it_model_metric = best_value,
                                it_v_gene_score = v_gene_score, it_change = Some best_change\<rparr>])))
            else Inr (Break (current_seq, iterations)))"

fun rounds ::
  "ReverseHumanizer \<Rightarrow> rat \<Rightarrow> rat \<Rightarrow> pyval list \<Rightarrow> pyval list \<Rightarrow> int list
    \<Rightarrow> pyval list \<times> IterationDetails list
    \<Rightarrow> error + pyval list \<times> IterationDetails list" where
  "rounds self target_model_metric target_v_gene_score original_seq human_sample [] state = Inr state"
| "rounds self target_model_metric target_v_gene_score original_seq human_sample (it # rest) state =
     (case round_body self target_model_metric target_v_gene_score original_seq human_sample it state of
        Inl e \<Rightarrow> Inl e
      | Inr (Break state') \<Rightarrow> Inr state'
      | Inr (Next state') \<Rightarrow>
          rounds self target_model_metric target_v_gene_score original_seq human_sample rest state')"

text \<open>
  Lines 45 to 59: annotation, the copy \<open>original_seq\<close>, the human sample and
  the chimeric sequence. The result is \<open>(original_seq, human_sample, current_seq)\<close>.
\<close>

definition chimeric_seed ::
  "ReverseHumanizer \<Rightarrow> string \<Rightarrow> string option \<Rightarrow> error + pyval list \<times> pyval list \<times> pyval list" where
  "chimeric_seed self sequence human_sample =
     (case annotate_single self sequence (annotation (model_wrapper self)) of
        None \<Rightarrow> Inl (CannotBeAnnotated sequence)
      | Some tokens \<Rightarrow>
          let current_seq = map PStr tokens;
              original_seq = current_seq
          in case select_human_sample self current_seq human_sample of
               Inl e \<Rightarrow> Inl e
             | Inr human_sample' \<Rightarrow>
                 (case make_chimeric
                         (enumerate 0 (segmented_positions (annotation (model_wrapper self))))
                         human_sample' current_seq of
                    Inl e \<Rightarrow> Inl e
                  | Inr current_seq' \<Rightarrow> Inr (original_seq, human_sample', current_seq')))"

definition query ::
  "ReverseHumanizer \<Rightarrow> string \<Rightarrow> rat \<Rightarrow> rat \<Rightarrow> string option
    \<Rightarrow> error + string \<times> IterationDetails list" where
  "query self sequence target_model_metric target_v_gene_score human_sample =
     (case chimeric_seed self sequence human_sample of
        Inl e \<Rightarrow> Inl e
      | Inr (original_seq, human_sample', current_seq) \<Rightarrow>
          let (current_value, v_gene_score) = calc_metrics self current_seq human_sample';
              iterations = [\<lparr>it_index = 0, it_model_metric = current_value,
                             it_v_gene_score = v_gene_score, it_change = None\<rparr>]
          in case rounds self target_model_metric target_v_gene_score original_seq human_sample'
                    [1..max_changes self] (current_seq, iterations) of
               Inl e \<Rightarrow> Inl e
             | Inr (current_seq', iterations') \<Rightarrow>
                 Inr (seq_to_str self current_seq' False, iterations'))"

section \<open>Example data\<close>

text \<open>
  A schema of ten positions whose V-gene region is the whole sequence, and a
  population of four samples whose similarities to \<open>AAAAAAAAAA\<close> are
  0.9, 0.5, 0.9 and 0.1.
\<close>

definition example_annotation :: Annotation where
  "example_annotation =
     \<lparr>segmented_positions =
        [''fwr1_1'', ''fwr1_2'', ''fwr1_3'', ''cdr1_1'', ''cdr1_2'',
         ''fwr2_1'', ''fwr2_2'', ''cdr2_1'', ''fwr3_1'', ''fwr3_2''],
      v_gene_end = 9\<rparr>"

definition example_scorer :: VGeneScorer where
  "example_scorer =
     \<lparr>scorer_annotation = example_annotation,
      human_samples = [''AAAAAAAAAC'', ''AAAAACCCCC'', ''CAAAAAAAAA'', ''ACCCCCCCCC''],
      labels = [''IGHV1'', ''IGHV2'', ''IGHV3'', ''IGHV4'']\<rparr>"

definition example_sequence :: "pyval list" where
  "example_sequence = map (\<lambda>c. PStr [c]) ''AAAAAAAAAA''"

text \<open>
  A humanizer over a schema of four positions, two of them framework
  positions. The model values a sequence by its share of tokens \<open>A\<close>; the
  V-gene score reported by \<open>_calc_metrics\<close> is the share of positions equal to
  the human sample; the comparator prefers the higher model value; the
  annotator accepts exactly the strings of the schema's length.
\<close>

definition small_annotation :: Annotation where
  "small_annotation =
     \<lparr>segmented_positions = [''fwr1_1'', ''cdr1_1'', ''fwr2_1'', ''cdr2_1''], v_gene_end = 3\<rparr>"

definition small_scorer :: VGeneScorer where
  "small_scorer =
     \<lparr>scorer_annotation = small_annotation,
      human_samples = [''BABA'', ''BBBB''],
      labels = [''IGHV1'', ''IGHV2'']\<rparr>"

definition example_model :: "pyval list \<Rightarrow> rat" where
  "example_model sequence =
     rat_of_nat (length (filter (\<lambda>v. v = PStr ''A'') sequence)) / rat_of_nat (length sequence)"

definition example_identity :: "pyval list \<Rightarrow> pyval list \<Rightarrow> rat" where
  "example_identity xs ys =
     rat_of_nat (length (filter (\<lambda>p. fst p = snd p) (zip xs ys))) / rat_of_nat (length xs)"

definition example_humanizer :: ReverseHumanizer where
  "example_humanizer =
     \<lparr>model_wrapper = \<lparr>annotation = small_annotation, predict_proba = example_model\<rparr>,
      v_gene_scorer = Some small_scorer,
      skip_positions = [],
      use_aa_similarity = False,
      annotate_single =
        (\<lambda>s a. if length s = length (segmented_positions a) then Some (map (\<lambda>c. [c]) s) else None),
      calc_metrics = (\<lambda>cur hs. (example_model cur, Some (example_identity cur hs))),
      is_change_less = (\<lambda>l r u. change_value l < change_value r),
      seq_to_str = (\<lambda>sequence b. concat (map (\<lambda>v. case v of PStr s \<Rightarrow> s | _ \<Rightarrow> ''?'') sequence)),
      max_changes = 10\<rparr>"

text \<open>The same humanizer without a V-gene scorer: \<open>_calc_metrics\<close> reports no V-gene score.\<close>

definition unscored_humanizer :: ReverseHumanizer where
  "unscored_humanizer =
     example_humanizer
       \<lparr>v_gene_scorer := None, calc_metrics := (\<lambda>cur hs. (example_model cur, None))\<rparr>"

text \<open>The same humanizer over the schema and the population of ten positions.\<close>

definition wide_humanizer :: ReverseHumanizer where
  "wide_humanizer =
     example_humanizer
       \<lparr>model_wrapper := \<lparr>annotation = example_annotation, predict_proba = example_model\<rparr>,
        v_gene_scorer := Some example_scorer\<rparr>"

text \<open>
  The run of \<open>example_humanizer\<close> on \<open>AAAA\<close> with the human sample \<open>BABA\<close>,
  target model value 0.5 and target V-gene score 0: the seed \<open>BABA\<close>, then the
  positions 0 and 2 revert to \<open>A\<close>.
\<close>

definition example_trail :: "IterationDetails list" where
  "example_trail =
     [\<lparr>it_index = 0, it_model_metric = 1 / 2, it_v_gene_score = Some 1, it_change = None\<rparr>,
      \<lparr>it_index = 1, it_model_metric = 3 / 4, it_v_gene_score = Some (3 / 4),
        it_change = Some \<lparr>position = Some 0, old_aa = PStr ''B'', aa = PStr ''A'',
                           change_value = 3 / 4\<rparr>\<rparr>,
      \<lparr>it_index = 2, it_model_metric = 1, it_v_gene_score = Some (1 / 2),
        it_change = Some \<lparr>position = Some 2, old_aa = PStr ''B'', aa = PStr ''A'',
                           change_value = 1\<rparr>\<rparr>]"

text \<open>
  The run of \<open>unscored_humanizer\<close> on the same input: the same changes, with no
  V-gene score in any record.
\<close>

definition unscored_trail :: "IterationDetails list" where
  "unscored_trail =
     [\<lparr>it_index = 0, it_model_metric = 1 / 2, it_v_gene_score = None, it_change = None\<rparr>,
      \<lparr>it_index = 1, it_model_metric = 3 / 4, it_v_gene_score = None,
        it_change = Some \<lparr>position = Some 0, old_aa = PStr ''B'', aa = PStr ''A'',
                           change_value = 3 / 4\<rparr>\<rparr>,
      \<lparr>it_index = 2, it_model_metric = 1, it_v_gene_score = None,
        it_change = Some \<lparr>position = Some 2, old_aa = PStr ''B'', aa = PStr ''A'',
                           change_value = 1\<rparr>\<rparr>]"

section \<open>Notions used to state the properties of the search\<close>

text \<open>The positions at which the current sequence differs from the original one.\<close>

definition differing_positions :: "pyval list \<Rightarrow> pyval list \<Rightarrow> nat list" where
  "differing_positions current_seq original_seq =
     filter (\<lambda>i. current_seq ! i \<noteq> original_seq ! i)
       [0..<min (length current_seq) (length original_seq)]"

text \<open>The positions of the changes recorded in a trail, in the order of the rounds.\<close>

fun changed_positions :: "IterationDetails list \<Rightarrow> nat list" where
  "changed_positions [] = []"
| "changed_positions (d # ds) =
     (case it_change d of
        None \<Rightarrow> changed_positions ds
      | Some c \<Rightarrow> (case position c of None \<Rightarrow> changed_positions ds
                                  | Some p \<Rightarrow> p # changed_positions ds))"

text \<open>
  A change that reverts the differing, not skipped position \<open>p\<close> of the current
  sequence to the original token, valued by the model on the reverted sequence.
\<close>

definition real_change :: "ReverseHumanizer \<Rightarrow> pyval list \<Rightarrow> pyval list \<Rightarrow> SequenceChange \<Rightarrow> nat \<Rightarrow> bool" where
  "real_change self cur orig c p \<longleftrightarrow>
     position c = Some p \<and> p < length cur \<and> p < length orig
     \<and> p < length (segmented_positions (annotation (model_wrapper self)))
     \<and> segmented_positions (annotation (model_wrapper self)) ! p \<notin> set (skip_positions self)
     \<and> cur ! p \<noteq> orig ! p \<and> old_aa c = cur ! p \<and> aa c = orig ! p
     \<and> change_value c = predict_proba (model_wrapper self) (cur[p := orig ! p])"

section \<open>Properties of the V-gene scorer\<close>

lemma calc_score_loop_counts:
  assumes "\<forall>i \<in> set ps. i < length seq_1 \<and> i < length seq_2"
  shows "calc_score_loop seq_1 seq_2 ps (same, total') =
           Inr (same + length (filter (\<lambda>i. seq_1 ! i = PStr [seq_2 ! i])
                                  (filter (informative seq_1 seq_2) ps)),
                total' + length (filter (informative seq_1 seq_2) ps))"
  using assms
proof (induction ps arbitrary: same total')
  case Nil
  then show ?case by simp
next
  case (Cons i rest)
  then have inr: "i < length seq_1" "i < length seq_2"
    and rest: "\<forall>j \<in> set rest. j < length seq_1 \<and> j < length seq_2"
    by simp_all
  show ?case
  proof (cases "informative seq_1 seq_2 i")
    case True
    then show ?thesis
      using inr Cons.IH [OF rest] by (auto simp: informative_def)
  next
    case False
    then show ?thesis
      using inr Cons.IH [OF rest] by (auto simp: informative_def)
  qed
qed

lemma no_informative_iff:
  "informative_positions seq_1 seq_2 a = [] \<longleftrightarrow>
     (\<forall>i < nat (v_gene_end a + 1). seq_1 ! i = PStr ''X'' \<and> seq_2 ! i = CHR ''X'')"
  by (auto simp: informative_positions_def informative_def filter_empty_conv)

text \<open>
  C8. \<open>is_v_gene_score_less\<close> is true whenever either argument is absent, and
  on two present values it is the strict order; so an absent first argument is
  less than (loses against) every second argument.
\<close>

theorem is_v_gene_score_less_spec:
  "is_v_gene_score_less None b
   \<and> is_v_gene_score_less a None
   \<and> (is_v_gene_score_less (Some x) (Some y) = (x < y))"
  by (simp add: is_v_gene_score_less_def split: option.split)

text \<open>
  C5. For sequences that have the positions \<open>0..v_gene_end\<close>, \<open>calc_score\<close>
  fails exactly when no position is informative, the failure is the division
  by zero and not a value, and otherwise the result is the similarity: matches
  among informative positions over informative positions.
\<close>

theorem calc_score_spec:
  assumes "nat (v_gene_end a + 1) \<le> length seq_1"
    and "nat (v_gene_end a + 1) \<le> length seq_2"
  shows "((\<exists>e. calc_score seq_1 seq_2 a = Inl e) \<longleftrightarrow>
            (\<forall>i < nat (v_gene_end a + 1). seq_1 ! i = PStr ''X'' \<and> seq_2 ! i = CHR ''X''))
       \<and> ((\<forall>i < nat (v_gene_end a + 1). seq_1 ! i = PStr ''X'' \<and> seq_2 ! i = CHR ''X'')
            \<longrightarrow> calc_score seq_1 seq_2 a = Inl ZeroDivisionError)
       \<and> (\<not> (\<forall>i < nat (v_gene_end a + 1). seq_1 ! i = PStr ''X'' \<and> seq_2 ! i = CHR ''X'')
            \<longrightarrow> calc_score seq_1 seq_2 a = Inr (similarity seq_1 seq_2 a)
              \<and> informative_positions seq_1 seq_2 a \<noteq> [])"
proof -
  let ?n = "nat (v_gene_end a + 1)"
  have "\<forall>i \<in> set [0..<?n]. i < length seq_1 \<and> i < length seq_2"
    using assms by auto
  then have loop: "calc_score_loop seq_1 seq_2 [0..<?n] (0, 0) =
      Inr (length (matching_positions seq_1 seq_2 a), length (informative_positions seq_1 seq_2 a))"
    by (simp add: calc_score_loop_counts matching_positions_def informative_positions_def)
  have res: "calc_score seq_1 seq_2 a =
      (if informative_positions seq_1 seq_2 a = [] then Inl ZeroDivisionError
       else Inr (similarity seq_1 seq_2 a))"
    by (simp add: calc_score_def loop similarity_def)
  show ?thesis
    unfolding res no_informative_iff [symmetric] by simp
qed

theorem calc_score_spec_witness:
  "calc_score [PStr ''A'', PStr ''X'', PStr ''C'', PStr ''X''] ''AXDC''
     \<lparr>segmented_positions = [''fwr1_1'', ''fwr1_2'', ''cdr1_1'', ''fwr2_1''], v_gene_end = 3\<rparr>
     = Inr (1 / 3)
   \<and> calc_score [PStr ''X'', PStr ''X''] ''XX''
       \<lparr>segmented_positions = [''fwr1_1'', ''fwr1_2''], v_gene_end = 1\<rparr> = Inl ZeroDivisionError"
proof -
  let ?a = "\<lparr>segmented_positions = [''fwr1_1'', ''fwr1_2'', ''cdr1_1'', ''fwr2_1''], v_gene_end = 3\<rparr>"
  let ?b = "\<lparr>segmented_positions = [''fwr1_1'', ''fwr1_2''], v_gene_end = 1\<rparr>"
  have n4: "nat (v_gene_end ?a + 1) = 4" and n2: "nat (v_gene_end ?b + 1) = 2"
    by simp_all
  have up4: "[0..<4] = [0, Suc 0, 2, 3]" and up2: "[0..<2] = [0, Suc 0]"
    by (simp_all add: upt_rec)
  have neq: "\<not> (\<forall>i < nat (v_gene_end ?a + 1).
      [PStr ''A'', PStr ''X'', PStr ''C'', PStr ''X''] ! i = PStr ''X'' \<and> ''AXDC'' ! i = CHR ''X'')"
    unfolding n4 by (auto intro: exI [of _ 0])
  have sim: "similarity [PStr ''A'', PStr ''X'', PStr ''C'', PStr ''X''] ''AXDC'' ?a = 1 / 3"
    by (simp add: similarity_def matching_positions_def informative_positions_def
        informative_def up4)
  have allx: "\<forall>i < nat (v_gene_end ?b + 1). [PStr ''X'', PStr ''X''] ! i = PStr ''X'' \<and> ''XX'' ! i = CHR ''X''"
    unfolding n2 by (auto simp: less_Suc_eq numeral_2_eq_2)
  show ?thesis
    using calc_score_spec [of ?a "[PStr ''A'', PStr ''X'', PStr ''C'', PStr ''X'']" "''AXDC''"]
      calc_score_spec [of ?b "[PStr ''X'', PStr ''X'']" "''XX''"] neq sim allx
    by simp
qed

lemma pool_map_Inr:
  "pool_map f xs = Inr ys \<Longrightarrow> length ys = length xs \<and> (\<forall>i < length xs. f (xs ! i) = Inr (ys ! i))"
proof (induction xs arbitrary: ys)
  case Nil
  then show ?case by simp
next
  case (Cons x xs)
  then obtain y ys' where fx: "f x = Inr y" and rest: "pool_map f xs = Inr ys'" and ys: "ys = y # ys'"
    by (auto split: sum.splits)
  from Cons.IH [OF rest] fx ys show ?case
    by (auto simp: nth_Cons split: nat.splits)
qed

lemma build_result_Inr:
  "build_result self ranked = Inr result \<Longrightarrow>
     result = map (\<lambda>p. (human_samples self ! fst p, snd p, labels self ! fst p)) ranked"
proof (induction ranked arbitrary: result)
  case Nil
  then show ?case by simp
next
  case (Cons p ranked)
  obtain idx sc where p: "p = (idx, sc)" by (cases p)
  from Cons.prems p obtain r' where "build_result self ranked = Inr r'"
    and "result = (human_samples self ! idx, sc, labels self ! idx) # r'"
    by (auto split: if_splits sum.splits)
  with Cons.IH p show ?case by simp
qed

lemma build_result_in_range:
  "\<forall>p \<in> set ranked. fst p < length (human_samples self) \<and> fst p < length (labels self) \<Longrightarrow>
     build_result self ranked = Inr (map (\<lambda>p. (human_samples self ! fst p, snd p, labels self ! fst p)) ranked)"
  by (induction ranked) (auto split: prod.splits)

lemma sorted_reverse_distinct: "distinct (sorted_reverse key xs) = distinct xs"
  by (simp add: sorted_reverse_def)

lemma sorted_reverse_length: "length (sorted_reverse key xs) = length xs"
  by (simp add: sorted_reverse_def)

lemma sorted_reverse_set: "set (sorted_reverse key xs) = set xs"
  by (simp add: sorted_reverse_def)

lemma sorted_reverse_descending:
  "sorted_wrt (\<lambda>a b. key b \<le> key a) (sorted_reverse key xs)"
proof -
  have "sorted (map key (sort_key key (rev xs)))" by simp
  then have "sorted_wrt (\<lambda>a b. key a \<le> key b) (sort_key key (rev xs))"
    by (simp add: sorted_map)
  then show ?thesis
    unfolding sorted_reverse_def by (simp add: sorted_wrt_rev)
qed

lemma sorted_reverse_stable:
  "filter (\<lambda>y. key y = k) (sorted_reverse key xs) = filter (\<lambda>y. key y = k) xs"
proof -
  have "filter (\<lambda>y. key y = k) (sort_key key (rev xs)) = filter (\<lambda>y. key y = k) (rev xs)"
    by (rule sort_key_stable)
  then have "rev (filter (\<lambda>y. key y = k) (sort_key key (rev xs))) = rev (filter (\<lambda>y. key y = k) (rev xs))"
    by simp
  then show ?thesis
    unfolding sorted_reverse_def by (simp add: rev_filter)
qed

lemma sorted_wrt_filter_nth:
  assumes "sorted_wrt Q (filter P ys)" and "i < j" and "j < length ys"
    and "P (ys ! i)" and "P (ys ! j)"
  shows "Q (ys ! i) (ys ! j)"
proof -
  have i: "i < length ys" using assms by simp
  have 1: "ys = take i ys @ ys ! i # drop (Suc i) ys"
    using i by (rule id_take_nth_drop)
  let ?d = "drop (Suc i) ys"
  have jd: "j - Suc i < length ?d" using assms by simp
  have 2: "?d = take (j - Suc i) ?d @ ?d ! (j - Suc i) # drop (Suc (j - Suc i)) ?d"
    using jd by (rule id_take_nth_drop)
  have 3: "?d ! (j - Suc i) = ys ! j" using assms by simp
  have "ys = take i ys @ ys ! i # take (j - Suc i) ?d @ ys ! j # drop (Suc (j - Suc i)) ?d"
    using 1 2 3 by metis
  then obtain as bs cs where "ys = as @ ys ! i # bs @ ys ! j # cs" by blast
  then have "filter P ys = filter P as @ ys ! i # filter P bs @ ys ! j # filter P cs"
    using assms(4,5) by (metis filter.simps(2) filter_append)
  with assms(1) show ?thesis
    by (simp add: sorted_wrt_append)
qed

lemma enumerate_sorted_fst: "sorted_wrt (\<lambda>a b. fst a < fst b) (enumerate n xs)"
proof -
  have "sorted_wrt (<) (map fst (enumerate n xs))" by simp
  then show ?thesis by (simp only: sorted_wrt_map)
qed

lemma sorted_reverse_enumerate_ranked:
  "sorted_wrt ranks_before (sorted_reverse snd (enumerate 0 scores))"
proof -
  let ?ys = "sorted_reverse snd (enumerate 0 scores)"
  have "ranks_before (?ys ! i) (?ys ! j)" if "i < j" "j < length ?ys" for i j
  proof (cases "snd (?ys ! i) = snd (?ys ! j)")
    case False
    have "snd (?ys ! j) \<le> snd (?ys ! i)"
      using sorted_reverse_descending [of snd "enumerate 0 scores"] that
      by (simp add: sorted_wrt_iff_nth_less)
    with False show ?thesis by (simp add: ranks_before_def)
  next
    case True
    let ?P = "\<lambda>y::nat \<times> rat. snd y = snd (?ys ! j)"
    have "sorted_wrt (\<lambda>a b. fst a < fst b) (filter ?P (enumerate 0 scores))"
      by (rule sorted_wrt_filter) (rule enumerate_sorted_fst)
    then have "sorted_wrt (\<lambda>a b. fst a < fst b) (filter ?P ?ys)"
      by (simp only: sorted_reverse_stable)
    then have "fst (?ys ! i) < fst (?ys ! j)"
      using that True by (rule sorted_wrt_filter_nth) simp_all
    with True show ?thesis by (simp add: ranks_before_def)
  qed
  then show ?thesis by (simp add: sorted_wrt_iff_nth_less)
qed


lemma VGeneScorer_init_lengths:
  "VGeneScorer_init ann samples labs = Inr self \<Longrightarrow>
     length (labels self) = length (human_samples self)"
  by (auto simp: VGeneScorer_init_def split: if_splits)

lemma example_ranking:
  "take 2 (sorted_reverse snd (enumerate 0 [9 / 10, 1 / 2, 9 / 10, 1 / 10 :: rat]))
     = [(0, 9 / 10), (2, 9 / 10)]"
  by (simp add: sorted_reverse_def)

text \<open>
  C4. Whenever \<open>VGeneScorer.query\<close> returns, the result has at most two
  entries, is sorted by score descending, and consists of the population
  entries at the first two indices of the ranking "higher score first, of
  equal scores the smaller population index first": every entry left out ranks
  after every entry returned. It does return when every similarity is defined
  and the labels are as many as the samples. For a population whose
  similarities are 0.9, 0.5, 0.9, 0.1 the result is the entries 0 and 2, in
  this order.
\<close>

theorem VGeneScorer_query_spec:
  "(VGeneScorer_query self sequence = Inr result \<longrightarrow>
      length result \<le> 2
      \<and> sorted_wrt (\<lambda>a b. fst (snd b) \<le> fst (snd a)) result
      \<and> (\<exists>scores idxs.
            pool_map (\<lambda>sample. calc_score sequence sample (scorer_annotation self))
              (human_samples self) = Inr scores
            \<and> length scores = length (human_samples self)
            \<and> (\<forall>i < length scores.
                  calc_score sequence (human_samples self ! i) (scorer_annotation self)
                    = Inr (scores ! i))
            \<and> result = map (\<lambda>i. (human_samples self ! i, scores ! i, labels self ! i)) idxs
            \<and> length idxs = min 2 (length scores)
            \<and> distinct idxs
            \<and> (\<forall>i \<in> set idxs. i < length scores)
            \<and> sorted_wrt (\<lambda>i j. ranks_before (i, scores ! i) (j, scores ! j)) idxs
            \<and> (\<forall>k < length scores. k \<notin> set idxs \<longrightarrow>
                  (\<forall>i \<in> set idxs. ranks_before (i, scores ! i) (k, scores ! k)))))
   \<and> (length (labels self) = length (human_samples self)
        \<and> pool_map (\<lambda>sample. calc_score sequence sample (scorer_annotation self))
              (human_samples self) = Inr scores'
      \<longrightarrow> (\<exists>r. VGeneScorer_query self sequence = Inr r))
   \<and> (length (labels self) = 4
        \<and> pool_map (\<lambda>sample. calc_score sequence sample (scorer_annotation self))
              (human_samples self) = Inr [9 / 10, 1 / 2, 9 / 10, 1 / 10]
      \<longrightarrow> VGeneScorer_query self sequence =
            Inr [(human_samples self ! 0, 9 / 10, labels self ! 0),
                 (human_samples self ! 2, 9 / 10, labels self ! 2)])"
proof (intro conjI impI)
  let ?f = "\<lambda>sample. calc_score sequence sample (scorer_annotation self)"
  {
    assume q: "VGeneScorer_query self sequence = Inr result"
    then obtain scores where pm: "pool_map ?f (human_samples self) = Inr scores"
      by (auto simp: VGeneScorer_query_def split: sum.splits)
    let ?ys = "sorted_reverse snd (enumerate 0 scores)"
    let ?ranked = "take 2 ?ys"
    let ?idxs = "map fst ?ranked"
    from q pm have br: "build_result self ?ranked = Inr result"
      by (simp add: VGeneScorer_query_def)
    have len: "length scores = length (human_samples self)"
      and each: "\<forall>i < length scores. ?f (human_samples self ! i) = Inr (scores ! i)"
      using pool_map_Inr [OF pm] by simp_all
    have sub: "set ?ranked \<subseteq> set (enumerate 0 scores)"
      using set_take_subset [of 2 ?ys] by (simp add: sorted_reverse_set)
    have val: "snd p = scores ! fst p" and rng: "fst p < length scores" if "p \<in> set ?ranked" for p
      using that sub by (auto simp: in_set_enumerate_eq)
    have res: "result = map (\<lambda>p. (human_samples self ! fst p, snd p, labels self ! fst p)) ?ranked"
      using build_result_Inr [OF br] .
    have res': "result = map (\<lambda>i. (human_samples self ! i, scores ! i, labels self ! i)) ?idxs"
      unfolding res using val by (simp add: comp_def)
    have srt: "sorted_wrt ranks_before ?ys"
      by (rule sorted_reverse_enumerate_ranked)
    have srt2: "sorted_wrt ranks_before ?ranked"
      using srt by (rule sorted_wrt_take)
    have pair: "p = (fst p, scores ! fst p)" if "p \<in> set ?ranked" for p
      using val [OF that] by (cases p) simp
    have srt_idx: "sorted_wrt (\<lambda>i j. ranks_before (i, scores ! i) (j, scores ! j)) ?idxs"
    proof -
      have "sorted_wrt (\<lambda>a b. ranks_before (fst a, scores ! fst a) (fst b, scores ! fst b)) ?ranked"
        using srt2 pair by (metis (no_types, lifting) sorted_wrt_mono_rel)
      then show ?thesis by (simp only: sorted_wrt_map)
    qed
    have dist: "distinct ?idxs"
    proof -
      have "distinct (map fst ?ys)"
      proof -
        have "distinct ?ys" by (simp add: sorted_reverse_distinct distinct_enumerate)
        moreover have "inj_on fst (set ?ys)"
          by (auto simp: sorted_reverse_set in_set_enumerate_eq inj_on_def)
        ultimately show ?thesis by (simp add: distinct_map)
      qed
      then show ?thesis by (simp only: take_map [symmetric] distinct_take)
    qed
    have top: "ranks_before (i, scores ! i) (k, scores ! k)"
      if "k < length scores" "k \<notin> set ?idxs" "i \<in> set ?idxs" for i k
    proof -
      have kin: "(k, scores ! k) \<in> set ?ys"
        using that(1) by (simp add: sorted_reverse_set in_set_enumerate_eq)
      have "(k, scores ! k) \<notin> set ?ranked"
        using that(2) by force
      moreover have "set ?ys = set ?ranked \<union> set (drop 2 ?ys)"
        by (metis append_take_drop_id set_append)
      ultimately have kd: "(k, scores ! k) \<in> set (drop 2 ?ys)"
        using kin by blast
      from that(3) obtain p where p: "p \<in> set ?ranked" "fst p = i" by auto
      have "sorted_wrt ranks_before (?ranked @ drop 2 ?ys)"
        using srt by simp
      then have "\<forall>a \<in> set ?ranked. \<forall>b \<in> set (drop 2 ?ys). ranks_before a b"
        unfolding sorted_wrt_append by blast
      then have "ranks_before p (k, scores ! k)"
        using p(1) kd by blast
      then show ?thesis using pair [OF p(1)] p(2) by simp
    qed
    show "length result \<le> 2" unfolding res by simp
    show "sorted_wrt (\<lambda>a b. fst (snd b) \<le> fst (snd a)) result"
    proof -
      have "sorted_wrt (\<lambda>a b. snd b \<le> snd a) ?ranked"
        by (rule sorted_wrt_take) (rule sorted_reverse_descending)
      then show ?thesis unfolding res by (simp add: sorted_wrt_map)
    qed
    show "\<exists>scores idxs.
            pool_map ?f (human_samples self) = Inr scores
            \<and> length scores = length (human_samples self)
            \<and> (\<forall>i < length scores. ?f (human_samples self ! i) = Inr (scores ! i))
            \<and> result = map (\<lambda>i. (human_samples self ! i, scores ! i, labels self ! i)) idxs
            \<and> length idxs = min 2 (length scores)
            \<and> distinct idxs
            \<and> (\<forall>i \<in> set idxs. i < length scores)
            \<and> sorted_wrt (\<lambda>i j. ranks_before (i, scores ! i) (j, scores ! j)) idxs
            \<and> (\<forall>k < length scores. k \<notin> set idxs \<longrightarrow>
                  (\<forall>i \<in> set idxs. ranks_before (i, scores ! i) (k, scores ! k)))"
    proof (intro exI [of _ scores] exI [of _ ?idxs] conjI)
      show "length ?idxs = min 2 (length scores)"
        by (simp add: sorted_reverse_length min.commute)
      show "\<forall>i \<in> set ?idxs. i < length scores" using rng by auto
      show "\<forall>k < length scores. k \<notin> set ?idxs \<longrightarrow>
              (\<forall>i \<in> set ?idxs. ranks_before (i, scores ! i) (k, scores ! k))"
        using top by blast
    qed (use pm len each res' dist srt_idx in blast)+
  }
  {
    assume a: "length (labels self) = length (human_samples self)
        \<and> pool_map ?f (human_samples self) = Inr scores'"
    let ?ranked = "take 2 (sorted_reverse snd (enumerate 0 scores'))"
    have len: "length scores' = length (human_samples self)"
      using pool_map_Inr a by blast
    have "set ?ranked \<subseteq> set (enumerate 0 scores')"
      using set_take_subset [of 2 "sorted_reverse snd (enumerate 0 scores')"]
      by (simp add: sorted_reverse_set)
    then have "\<forall>p \<in> set ?ranked. fst p < length (human_samples self) \<and> fst p < length (labels self)"
      using a len by (auto simp: in_set_enumerate_eq)
    then show "\<exists>r. VGeneScorer_query self sequence = Inr r"
      using a by (simp add: VGeneScorer_query_def build_result_in_range)
  }
  {
    assume a: "length (labels self) = 4
        \<and> pool_map ?f (human_samples self) = Inr [9 / 10, 1 / 2, 9 / 10, 1 / 10]"
    then have "length (human_samples self) = 4"
      using pool_map_Inr [of ?f "human_samples self" "[9 / 10, 1 / 2, 9 / 10, 1 / 10]"] by simp
    moreover have "VGeneScorer_query self sequence = build_result self [(0, 9 / 10), (2, 9 / 10)]"
      using a by (simp only: VGeneScorer_query_def example_ranking sum.case)
    ultimately show "VGeneScorer_query self sequence =
        Inr [(human_samples self ! 0, 9 / 10, labels self ! 0),
             (human_samples self ! 2, 9 / 10, labels self ! 2)]"
      using a by simp
  }
qed

theorem VGeneScorer_query_spec_witness:
  "VGeneScorer_query example_scorer example_sequence =
     Inr [(''AAAAAAAAAC'', 9 / 10, ''IGHV1''), (''CAAAAAAAAA'', 9 / 10, ''IGHV3'')]
   \<and> length [(''AAAAAAAAAC'', 9 / 10 :: rat, ''IGHV1''), (''CAAAAAAAAA'', 9 / 10, ''IGHV3'')] \<le> 2"
proof -
  have up: "[0..<10] = [0, 1, 2, 3, 4, 5, 6, 7, 8, 9]"
    by (simp add: upt_rec)
  have scores: "pool_map (\<lambda>sample. calc_score example_sequence sample (scorer_annotation example_scorer))
      (human_samples example_scorer) = Inr [9 / 10, 1 / 2, 9 / 10, 1 / 10]"
    by (simp add: example_scorer_def example_annotation_def example_sequence_def calc_score_def up)
  have labs: "length (labels example_scorer) = 4"
    by (simp add: example_scorer_def)
  have q: "VGeneScorer_query example_scorer example_sequence =
      Inr [(''AAAAAAAAAC'', 9 / 10, ''IGHV1''), (''CAAAAAAAAA'', 9 / 10, ''IGHV3'')]"
    using VGeneScorer_query_spec [of example_scorer example_sequence] scores labs
    by (simp add: example_scorer_def)
  show ?thesis
    using q VGeneScorer_query_spec [of example_scorer example_sequence
        "[(''AAAAAAAAAC'', 9 / 10, ''IGHV1''), (''CAAAAAAAAA'', 9 / 10, ''IGHV3'')]"]
    by simp
qed

section \<open>Properties of the search\<close>

lemma test_single_change_cases:
  assumes "test_single_change self sequence column_idx new_aa = Inr (c, sequence')"
  shows "sequence' = sequence \<and> column_idx < length sequence
    \<and> (if sequence ! column_idx = new_aa
        then c = \<lparr>position = None, old_aa = new_aa, aa = PNone, change_value = - 1\<rparr>
        else c = \<lparr>position = Some column_idx, old_aa = sequence ! column_idx, aa = new_aa,
                  change_value = predict_proba (model_wrapper self) (sequence[column_idx := new_aa])\<rparr>)"
  using assms
  by (auto simp: test_single_change_def Let_def split: if_splits)

lemma test_single_change_in_range:
  assumes "column_idx < length sequence"
  shows "\<exists>c. test_single_change self sequence column_idx new_aa = Inr (c, sequence)"
  using assms by (simp add: test_single_change_def Let_def)

lemma find_best_loop_result:
  assumes "find_best_loop self ps cur orig best = Inr (b, cur')"
    and "set ps \<subseteq> set (enumerate 0 (segmented_positions (annotation (model_wrapper self))))"
    and "position best = None \<or> (\<exists>p. real_change self cur orig best p)"
  shows "cur' = cur \<and> (position b = None \<or> (\<exists>p. real_change self cur orig b p))"
  using assms
proof (induction ps arbitrary: best)
  case Nil
  then show ?case by simp
next
  case (Cons q ps)
  obtain idx column_name where q: "q = (idx, column_name)" by (cases q)
  from Cons.prems(2) q have sub: "set ps \<subseteq> set (enumerate 0 (segmented_positions (annotation (model_wrapper self))))"
    and qin: "(idx, column_name) \<in> set (enumerate 0 (segmented_positions (annotation (model_wrapper self))))"
    by simp_all
  from qin have idx: "idx < length (segmented_positions (annotation (model_wrapper self)))"
    and name: "segmented_positions (annotation (model_wrapper self)) ! idx = column_name"
    by (simp_all add: in_set_enumerate_eq)
  show ?case
  proof (cases "column_name \<in> set (skip_positions self)")
    case True
    with Cons.prems(1) q have "find_best_loop self ps cur orig best = Inr (b, cur')" by simp
    from Cons.IH [OF this sub Cons.prems(3)] show ?thesis .
  next
    case False
    with Cons.prems(1) q obtain c s where
      io: "idx < length orig"
      and t: "test_single_change self cur idx (orig ! idx) = Inr (c, s)"
      and r: "find_best_loop self ps s orig
                (if is_change_less self best c (use_aa_similarity self) then c else best) = Inr (b, cur')"
      by (auto split: if_splits sum.splits)
    from test_single_change_cases [OF t] have s: "s = cur" and ic: "idx < length cur"
      and c: "if cur ! idx = orig ! idx
        then c = \<lparr>position = None, old_aa = orig ! idx, aa = PNone, change_value = - 1\<rparr>
        else c = \<lparr>position = Some idx, old_aa = cur ! idx, aa = orig ! idx,
                  change_value = predict_proba (model_wrapper self) (cur[idx := orig ! idx])\<rparr>"
      by simp_all
    have cinv: "position c = None \<or> (\<exists>p. real_change self cur orig c p)"
    proof (cases "cur ! idx = orig ! idx")
      case True
      with c show ?thesis by simp
    next
      case ne: False
      with c io ic idx name False have "real_change self cur orig c idx"
        by (simp add: real_change_def)
      then show ?thesis by blast
    qed
    have "position (if is_change_less self best c (use_aa_similarity self) then c else best) = None
        \<or> (\<exists>p. real_change self cur orig
              (if is_change_less self best c (use_aa_similarity self) then c else best) p)"
      using cinv Cons.prems(3) by simp
    from Cons.IH [OF r [unfolded s] sub this] show ?thesis .
  qed
qed

lemma find_best_change_result:
  assumes "find_best_change self cur orig = Inr (b, cur')"
  shows "cur' = cur \<and> (position b = None \<or> (\<exists>p. real_change self cur orig b p))"
  using find_best_loop_result [OF assms [unfolded find_best_change_def]] by simp

lemma find_best_loop_total:
  assumes "\<forall>q \<in> set ps. fst q < length cur \<and> fst q < length orig"
  shows "\<exists>b. find_best_loop self ps cur orig best = Inr (b, cur)"
  using assms
proof (induction ps arbitrary: best)
  case Nil
  then show ?case by simp
next
  case (Cons q ps)
  obtain idx column_name where q: "q = (idx, column_name)" by (cases q)
  from Cons.prems q have r: "idx < length cur" "idx < length orig"
    and rest: "\<forall>q \<in> set ps. fst q < length cur \<and> fst q < length orig"
    by simp_all
  from test_single_change_in_range [OF r(1)] obtain c
    where "test_single_change self cur idx (orig ! idx) = Inr (c, cur)" by blast
  with Cons.IH [OF rest] q r show ?case by simp
qed

lemma find_best_change_total:
  assumes "length (segmented_positions (annotation (model_wrapper self))) \<le> length cur"
    and "length (segmented_positions (annotation (model_wrapper self))) \<le> length orig"
  shows "\<exists>b. find_best_change self cur orig = Inr (b, cur)"
  unfolding find_best_change_def
  by (rule find_best_loop_total) (use assms in \<open>auto simp: in_set_enumerate_eq\<close>)


lemma round_body_cases:
  assumes "round_body self t1 t2 orig hs it (cur, its) = Inr r"
  shows "(r = Break (cur, its)
          \<and> (\<forall>b p. find_best_change self cur orig = Inr (b, cur) \<longrightarrow> position b = Some p \<longrightarrow>
                \<not> (t1 \<le> fst (calc_metrics self (cur[p := aa b]) hs)
                    \<and> is_v_gene_score_less (Some t2) (snd (calc_metrics self (cur[p := aa b]) hs)))))
       \<or> (\<exists>b p. find_best_change self cur orig = Inr (b, cur) \<and> real_change self cur orig b p
            \<and> t1 \<le> fst (calc_metrics self (cur[p := orig ! p]) hs)
            \<and> is_v_gene_score_less (Some t2) (snd (calc_metrics self (cur[p := orig ! p]) hs))
            \<and> r = Next (cur[p := orig ! p],
                  its @ [\<lparr>it_index = it,
                          it_model_metric = fst (calc_metrics self (cur[p := orig ! p]) hs),
                          it_v_gene_score = snd (calc_metrics self (cur[p := orig ! p]) hs),
                          it_change = Some b\<rparr>]))"
proof -
  from assms obtain b c where f: "find_best_change self cur orig = Inr (b, c)"
    by (auto simp: round_body_def split: sum.splits prod.splits)
  from find_best_change_result [OF f] have c: "c = cur"
    and b: "position b = None \<or> (\<exists>p. real_change self cur orig b p)" by simp_all
  show ?thesis
  proof (cases "position b")
    case None
    with assms f c show ?thesis
      by (simp add: round_body_def is_defined_def split: prod.splits)
  next
    case (Some p)
    with b have rc: "real_change self cur orig b p" by (auto simp: real_change_def)
    then have p: "p < length cur" "aa b = orig ! p" "old_aa b = cur ! p"
      "p < length (segmented_positions (annotation (model_wrapper self)))"
      by (simp_all add: real_change_def)
    obtain bv vs where m: "calc_metrics self (cur[p := orig ! p]) hs = (bv, vs)"
      by (cases "calc_metrics self (cur[p := orig ! p]) hs")
    show ?thesis
    proof (cases "t1 \<le> bv \<and> is_v_gene_score_less (Some t2) vs")
      case True
      with assms f c Some p m rc show ?thesis
        by (auto simp: round_body_def is_defined_def split: prod.splits)
    next
      case False
      with assms f c Some p m show ?thesis
        by (auto simp: round_body_def is_defined_def split: prod.splits)
    qed
  qed
qed

lemma round_body_total:
  assumes "length (segmented_positions (annotation (model_wrapper self))) \<le> length cur"
    and "length cur = length orig"
  shows "\<exists>r. round_body self t1 t2 orig hs it (cur, its) = Inr r"
proof -
  from find_best_change_total [of self cur orig] assms obtain b
    where f: "find_best_change self cur orig = Inr (b, cur)" by auto
  from find_best_change_result [OF f]
  have b: "position b = None \<or> (\<exists>p. real_change self cur orig b p)" by simp
  show ?thesis
  proof (cases "position b")
    case None
    with f show ?thesis by (simp add: round_body_def is_defined_def split: prod.splits)
  next
    case (Some p)
    with b have "real_change self cur orig b p" by (auto simp: real_change_def)
    then have "p < length cur" "p < length (segmented_positions (annotation (model_wrapper self)))"
      by (simp_all add: real_change_def)
    with f Some show ?thesis
      by (simp add: round_body_def is_defined_def Let_def split: prod.splits)
  qed
qed


lemma round_body_Break:
  assumes "round_body self t1 t2 orig hs it st = Inr (Break st')"
  shows "st' = st"
  using round_body_cases [of self t1 t2 orig hs it "fst st" "snd st" "Break st'"] assms
  by auto

lemma rounds_invariant:
  assumes "rounds self t1 t2 orig hs its st = Inr st'"
    and "P st"
    and "\<And>it s s'. it \<in> set its \<Longrightarrow> P s \<Longrightarrow>
            round_body self t1 t2 orig hs it s = Inr (Next s') \<Longrightarrow> P s'"
  shows "P st'"
  using assms
proof (induction its arbitrary: st)
  case Nil
  then show ?case by simp
next
  case (Cons it its)
  from Cons.prems(1) obtain r where r: "round_body self t1 t2 orig hs it st = Inr r"
    by (auto split: sum.splits)
  show ?case
  proof (cases r)
    case (Break s)
    with r Cons.prems(1) have "st' = s" by simp
    moreover from r Break have "s = st" by (simp add: round_body_Break)
    ultimately show ?thesis using Cons.prems(2) by simp
  next
    case (Next s)
    with r Cons.prems(1) have run: "rounds self t1 t2 orig hs its s = Inr st'" by simp
    have "P s"
      by (rule Cons.prems(3) [of it st s]) (use r Next Cons.prems(2) in simp_all)
    show ?thesis
    proof (rule Cons.IH [OF run \<open>P s\<close>])
      fix j a b
      assume "j \<in> set its" "P a" "round_body self t1 t2 orig hs j a = Inr (Next b)"
      then show "P b" using Cons.prems(3) [of j a b] by simp
    qed
  qed
qed

lemma rounds_length:
  assumes "rounds self t1 t2 orig hs its (cur, tr) = Inr (cur', tr')"
  shows "length tr \<le> length tr' \<and> length tr' \<le> length tr + length its"
  using assms
proof (induction its arbitrary: cur tr)
  case Nil
  then show ?case by simp
next
  case (Cons it its)
  from Cons.prems obtain r where r: "round_body self t1 t2 orig hs it (cur, tr) = Inr r"
    by (auto split: sum.splits)
  show ?case
  proof (cases r)
    case (Break s)
    with r Cons.prems have "(cur', tr') = s" by simp
    moreover from r Break have "s = (cur, tr)" by (simp add: round_body_Break)
    ultimately show ?thesis by simp
  next
    case (Next s)
    with r Cons.prems have run: "rounds self t1 t2 orig hs its s = Inr (cur', tr')" by simp
    from round_body_cases [OF r] Next obtain c d where s: "s = (c, tr @ [d])" by auto
    from Cons.IH [OF run [unfolded s]] show ?thesis by simp
  qed
qed

lemma rounds_total:
  assumes "length (segmented_positions (annotation (model_wrapper self))) \<le> length cur"
    and "length cur = length orig"
  shows "\<exists>r. rounds self t1 t2 orig hs its (cur, tr) = Inr r"
  using assms
proof (induction its arbitrary: cur tr)
  case Nil
  then show ?case by simp
next
  case (Cons it its)
  from round_body_total [OF Cons.prems] obtain r
    where r: "round_body self t1 t2 orig hs it (cur, tr) = Inr r" by blast
  show ?case
  proof (cases r)
    case (Break s)
    with r show ?thesis by simp
  next
    case (Next s)
    from round_body_cases [OF r] Next obtain p d where s: "s = (cur[p := orig ! p], tr @ [d])" by auto
    have "\<exists>r. rounds self t1 t2 orig hs its (cur[p := orig ! p], tr @ [d]) = Inr r"
      by (rule Cons.IH) (use Cons.prems in simp_all)
    with r Next s show ?thesis by simp
  qed
qed

lemma differing_positions_set:
  "set (differing_positions cur orig) = {i. i < length cur \<and> i < length orig \<and> cur ! i \<noteq> orig ! i}"
  by (auto simp: differing_positions_def)

lemma differing_positions_distinct: "distinct (differing_positions cur orig)"
  by (simp add: differing_positions_def)

lemma differing_positions_revert:
  assumes "p < length cur" "p < length orig" "cur ! p \<noteq> orig ! p"
  shows "p \<in> set (differing_positions cur orig)"
    and "set (differing_positions (cur[p := orig ! p]) orig) = set (differing_positions cur orig) - {p}"
    and "Suc (length (differing_positions (cur[p := orig ! p]) orig)) = length (differing_positions cur orig)"
proof -
  show in_p: "p \<in> set (differing_positions cur orig)"
    using assms by (simp add: differing_positions_set)
  show eq: "set (differing_positions (cur[p := orig ! p]) orig) = set (differing_positions cur orig) - {p}"
    using assms by (auto simp: differing_positions_set nth_list_update)
  have "length (differing_positions (cur[p := orig ! p]) orig)
      = card (set (differing_positions cur orig) - {p})"
    using eq distinct_card [OF differing_positions_distinct, of "cur[p := orig ! p]" orig] by simp
  also have "\<dots> = card (set (differing_positions cur orig)) - 1"
    using in_p by simp
  also have "card (set (differing_positions cur orig)) = length (differing_positions cur orig)"
    by (rule distinct_card) (rule differing_positions_distinct)
  finally show "Suc (length (differing_positions (cur[p := orig ! p]) orig)) = length (differing_positions cur orig)"
    using in_p by (cases "differing_positions cur orig") auto
qed

lemma changed_positions_append:
  "changed_positions (xs @ ys) = changed_positions xs @ changed_positions ys"
  by (induction xs) (auto split: option.splits)

lemma make_chimeric_length:
  "make_chimeric ps hs cur = Inr seed \<Longrightarrow> length seed = length cur"
proof (induction ps arbitrary: cur)
  case Nil
  then show ?case by simp
next
  case (Cons q ps)
  obtain idx column_name where q: "q = (idx, column_name)" by (cases q)
  show ?case
  proof (cases "prefix ''fwr'' column_name")
    case True
    with Cons.prems q have "make_chimeric ps hs (cur[idx := hs ! idx]) = Inr seed"
      by (simp split: if_splits)
    from Cons.IH [OF this] show ?thesis by simp
  next
    case False
    with Cons.prems q have "make_chimeric ps hs cur = Inr seed" by simp
    from Cons.IH [OF this] show ?thesis .
  qed
qed

lemma chimeric_seed_length:
  assumes "chimeric_seed self sequence hs = Inr (orig, hs', seed)"
  shows "length seed = length orig"
  using assms
  by (auto simp: chimeric_seed_def Let_def make_chimeric_length split: option.splits sum.splits)

lemma round_body_no_candidate:
  assumes "find_best_change self cur orig = Inr (b, cur')" and "\<not> is_defined b"
  shows "round_body self t1 t2 orig hs it (cur, tr) = Inr (Break (cur, tr))"
  using assms find_best_change_result [OF assms(1)]
  by (simp add: round_body_def split: prod.splits)

lemma round_body_gate_fails:
  assumes "find_best_change self cur orig = Inr (b, cur')" and "position b = Some p"
    and "\<not> (t1 \<le> fst (calc_metrics self (cur[p := aa b]) hs)
            \<and> is_v_gene_score_less (Some t2) (snd (calc_metrics self (cur[p := aa b]) hs)))"
  shows "round_body self t1 t2 orig hs it (cur, tr) = Inr (Break (cur, tr))"
proof -
  from find_best_change_result [OF assms(1)] assms(2)
  have c: "cur' = cur" and "real_change self cur orig b p" by (auto simp: real_change_def)
  then have p: "p < length cur" by (simp add: real_change_def)
  obtain bv vs where m: "calc_metrics self (cur[p := aa b]) hs = (bv, vs)"
    by (cases "calc_metrics self (cur[p := aa b]) hs")
  with assms c p show ?thesis
    by (auto simp: round_body_def is_defined_def split: prod.splits)
qed

lemma example_find_best:
  "find_best_change example_humanizer [PStr ''B'', PStr ''A'', PStr ''B'', PStr ''A'']
       [PStr ''A'', PStr ''A'', PStr ''A'', PStr ''A'']
     = Inr (\<lparr>position = Some 0, old_aa = PStr ''B'', aa = PStr ''A'', change_value = 3 / 4\<rparr>,
            [PStr ''B'', PStr ''A'', PStr ''B'', PStr ''A''])"
  by (simp add: find_best_change_def example_humanizer_def small_annotation_def
      test_single_change_def example_model_def Let_def)

text \<open>
  C6. Whenever \<open>_test_single_change\<close> returns, the sequence is the one it was
  called with, at every position, although the method writes the candidate to
  it before the model is asked; it does return for every position of the
  sequence. Hence \<open>_find_best_change\<close> returns with \<open>current_seq\<close> unchanged,
  and it returns when both sequences cover the schema.
\<close>

theorem test_single_change_restores:
  "(test_single_change self sequence column_idx new_aa = Inr (c, sequence') \<longrightarrow> sequence' = sequence)
   \<and> (column_idx < length sequence \<longrightarrow>
        (\<exists>c. test_single_change self sequence column_idx new_aa = Inr (c, sequence)))
   \<and> (find_best_change self current_seq original_seq = Inr (b, current_seq') \<longrightarrow>
        current_seq' = current_seq)
   \<and> (length (segmented_positions (annotation (model_wrapper self))) \<le> length current_seq
        \<and> length (segmented_positions (annotation (model_wrapper self))) \<le> length original_seq \<longrightarrow>
        (\<exists>b. find_best_change self current_seq original_seq = Inr (b, current_seq)))"
  using test_single_change_cases [of self sequence column_idx new_aa c sequence']
    test_single_change_in_range [of column_idx sequence self new_aa]
    find_best_change_result [of self current_seq original_seq b current_seq']
    find_best_change_total [of self current_seq original_seq]
  by blast

theorem test_single_change_restores_witness:
  "test_single_change example_humanizer [PStr ''B'', PStr ''A'', PStr ''B'', PStr ''A''] 2 (PStr ''A'')
     = Inr (\<lparr>position = Some 2, old_aa = PStr ''B'', aa = PStr ''A'', change_value = 3 / 4\<rparr>,
            [PStr ''B'', PStr ''A'', PStr ''B'', PStr ''A''])
   \<and> find_best_change example_humanizer [PStr ''B'', PStr ''A'', PStr ''B'', PStr ''A'']
       [PStr ''A'', PStr ''A'', PStr ''A'', PStr ''A'']
     = Inr (\<lparr>position = Some 0, old_aa = PStr ''B'', aa = PStr ''A'', change_value = 3 / 4\<rparr>,
            [PStr ''B'', PStr ''A'', PStr ''B'', PStr ''A''])"
proof -
  let ?seq = "[PStr ''B'', PStr ''A'', PStr ''B'', PStr ''A'']"
  let ?orig = "[PStr ''A'', PStr ''A'', PStr ''A'', PStr ''A'']"
  have len: "length (segmented_positions (annotation (model_wrapper example_humanizer))) = 4"
    by (simp add: example_humanizer_def small_annotation_def)
  have t: "fst (projr (test_single_change example_humanizer ?seq 2 (PStr ''A'')))
      = \<lparr>position = Some 2, old_aa = PStr ''B'', aa = PStr ''A'', change_value = 3 / 4\<rparr>"
    by (simp add: test_single_change_def example_humanizer_def example_model_def Let_def)
  have f: "fst (projr (find_best_change example_humanizer ?seq ?orig))
      = \<lparr>position = Some 0, old_aa = PStr ''B'', aa = PStr ''A'', change_value = 3 / 4\<rparr>"
    by (simp add: example_find_best)
  note th = test_single_change_restores [of example_humanizer ?seq 2 "PStr ''A''" undefined ?seq
      ?seq ?orig undefined ?seq]
  have "\<exists>c. test_single_change example_humanizer ?seq 2 (PStr ''A'') = Inr (c, ?seq)"
    using th by simp
  moreover have "\<exists>b. find_best_change example_humanizer ?seq ?orig = Inr (b, ?seq)"
    using th len by simp
  ultimately obtain c b where "test_single_change example_humanizer ?seq 2 (PStr ''A'') = Inr (c, ?seq)"
    and "find_best_change example_humanizer ?seq ?orig = Inr (b, ?seq)"
    by blast
  with t f show ?thesis by simp
qed

lemma round_body_Next_record:
  assumes "round_body self t1 t2 orig hs it (cur, tr) = Inr (Next (cur', tr'))"
  shows "\<exists>d. tr' = tr @ [d] \<and> it_index d = it \<and> it_change d \<noteq> None
           \<and> t1 \<le> it_model_metric d \<and> is_v_gene_score_less (Some t2) (it_v_gene_score d)"
  using round_body_cases [OF assms] by auto

lemma rounds_indices:
  assumes "rounds self t1 t2 orig hs its (cur, tr) = Inr (cur', tr')"
  shows "\<forall>d \<in> set tr'. d \<in> set tr \<or> it_index d \<in> set its"
proof -
  let ?P = "\<lambda>s. \<forall>d \<in> set (snd s). d \<in> set tr \<or> it_index d \<in> set its"
  have "?P (cur', tr')"
  proof (rule rounds_invariant [OF assms, where P = ?P])
    show "?P (cur, tr)" by simp
  next
    fix it s s'
    assume it: "it \<in> set its" and P: "?P s"
      and r: "round_body self t1 t2 orig hs it s = Inr (Next s')"
    from round_body_Next_record [of self t1 t2 orig hs it "fst s" "snd s" "fst s'" "snd s'"] r
    obtain d where "snd s' = snd s @ [d]" "it_index d = it" by auto
    with it P show "?P s'" by auto
  qed
  then show ?thesis by simp
qed

lemma example_query:
  "query example_humanizer ''AAAA'' (1 / 2) 0 (Some ''BABA'') = Inr (''AAAA'', example_trail)"
  by code_simp

text \<open>
  C7. The loop runs over \<open>range(1, MAX_CHANGES + 1)\<close> and appends at most one
  record per round: a returned trail holds the seed record and at most
  \<open>MAX_CHANGES\<close> more, numbered within \<open>0..MAX_CHANGES\<close>. With a budget of 0 the
  result is the chimeric sequence as a string and the single record of
  iteration 0. The function is total, so every invocation ends.
\<close>

theorem query_bounded:
  "(query self sequence target_model_metric target_v_gene_score human_sample = Inr (s, trail) \<longrightarrow>
      1 \<le> length trail \<and> length trail \<le> nat (max_changes self) + 1
      \<and> (\<forall>d \<in> set trail. 0 \<le> it_index d \<and> it_index d \<le> max 0 (max_changes self)))
   \<and> (max_changes self \<le> 0
        \<and> chimeric_seed self sequence human_sample = Inr (original_seq, human_sample', current_seq) \<longrightarrow>
      query self sequence target_model_metric target_v_gene_score human_sample =
        Inr (seq_to_str self current_seq False,
             [\<lparr>it_index = 0,
               it_model_metric = fst (calc_metrics self current_seq human_sample'),
               it_v_gene_score = snd (calc_metrics self current_seq human_sample'),
               it_change = None\<rparr>]))"
proof (intro conjI impI)
  assume q: "query self sequence target_model_metric target_v_gene_score human_sample = Inr (s, trail)"
  then obtain orig hs seed where seed: "chimeric_seed self sequence human_sample = Inr (orig, hs, seed)"
    by (auto simp: query_def split: sum.splits)
  let ?r0 = "\<lparr>it_index = 0, it_model_metric = fst (calc_metrics self seed hs),
     it_v_gene_score = snd (calc_metrics self seed hs), it_change = None\<rparr>"
  from q seed obtain final where
    run: "rounds self target_model_metric target_v_gene_score orig hs [1..max_changes self] (seed, [?r0])
           = Inr (final, trail)"
    by (auto simp: query_def Let_def split: sum.splits prod.splits)
  from rounds_length [OF run]
  show "1 \<le> length trail" and "length trail \<le> nat (max_changes self) + 1"
    by simp_all
  from rounds_indices [OF run]
  show "\<forall>d \<in> set trail. 0 \<le> it_index d \<and> it_index d \<le> max 0 (max_changes self)"
    by auto
next
  assume a: "max_changes self \<le> 0
        \<and> chimeric_seed self sequence human_sample = Inr (original_seq, human_sample', current_seq)"
  then have "[1..max_changes self] = []" by simp
  with a show "query self sequence target_model_metric target_v_gene_score human_sample =
        Inr (seq_to_str self current_seq False,
             [\<lparr>it_index = 0,
               it_model_metric = fst (calc_metrics self current_seq human_sample'),
               it_v_gene_score = snd (calc_metrics self current_seq human_sample'),
               it_change = None\<rparr>])"
    by (simp add: query_def Let_def split: prod.splits)
qed

theorem query_bounded_witness:
  "query example_humanizer ''AAAA'' (1 / 2) 0 (Some ''BABA'') = Inr (''AAAA'', example_trail)
   \<and> length example_trail \<le> nat (max_changes example_humanizer) + 1
   \<and> query (example_humanizer\<lparr>max_changes := 0\<rparr>) ''AAAA'' (1 / 2) 0 (Some ''BABA'')
       = Inr (''BABA'', [\<lparr>it_index = 0, it_model_metric = 1 / 2, it_v_gene_score = Some 1,
                          it_change = None\<rparr>])"
proof -
  let ?cfg = "example_humanizer\<lparr>max_changes := 0\<rparr>"
  let ?seed = "[PStr ''B'', PStr ''A'', PStr ''B'', PStr ''A'']"
  have seed: "chimeric_seed ?cfg ''AAAA'' (Some ''BABA'')
      = Inr ([PStr ''A'', PStr ''A'', PStr ''A'', PStr ''A''], ?seed, ?seed)"
    by code_simp
  have budget: "max_changes ?cfg \<le> 0" by simp
  have str: "seq_to_str ?cfg ?seed False = ''BABA''" by code_simp
  have metrics: "calc_metrics ?cfg ?seed ?seed = (1 / 2, Some 1)" by code_simp
  have "query ?cfg ''AAAA'' (1 / 2) 0 (Some ''BABA'')
      = Inr (seq_to_str ?cfg ?seed False,
             [\<lparr>it_index = 0, it_model_metric = fst (calc_metrics ?cfg ?seed ?seed),
               it_v_gene_score = snd (calc_metrics ?cfg ?seed ?seed), it_change = None\<rparr>])"
    using query_bounded [of ?cfg "''AAAA''" "1 / 2" 0 "Some ''BABA''"] budget seed by blast
  then have zero: "query ?cfg ''AAAA'' (1 / 2) 0 (Some ''BABA'')
      = Inr (''BABA'', [\<lparr>it_index = 0, it_model_metric = 1 / 2, it_v_gene_score = Some 1,
                         it_change = None\<rparr>])"
    by (simp only: str metrics fst_conv snd_conv)
  have "length example_trail \<le> nat (max_changes example_humanizer) + 1"
    using query_bounded [of example_humanizer "''AAAA''" "1 / 2" 0 "Some ''BABA''" "''AAAA''" example_trail]
      example_query by blast
  with zero example_query show ?thesis by simp
qed

text \<open>
  C9. A raw sequence that cannot be annotated makes \<open>query\<close> raise, with no
  result. Once the chimeric sequence is built from an annotation that covers
  the schema, \<open>query\<close> returns a sequence string and a trail; each way the
  search ends (budget exhausted, no candidate, best candidate failing the
  targets) returns the state and raises nothing.
\<close>

theorem query_errors:
  "(annotate_single self sequence (annotation (model_wrapper self)) = None \<longrightarrow>
      query self sequence target_model_metric target_v_gene_score human_sample
        = Inl (CannotBeAnnotated sequence))
   \<and> (chimeric_seed self sequence human_sample = Inr (original_seq, human_sample', seed)
        \<and> length (segmented_positions (annotation (model_wrapper self))) \<le> length original_seq \<longrightarrow>
      (\<exists>s trail. query self sequence target_model_metric target_v_gene_score human_sample
         = Inr (s, trail)))
   \<and> rounds self target_model_metric target_v_gene_score orig hs [] (cur, tr) = Inr (cur, tr)
   \<and> (find_best_change self cur orig = Inr (b, cur') \<and> \<not> is_defined b \<longrightarrow>
      rounds self target_model_metric target_v_gene_score orig hs (it # its) (cur, tr) = Inr (cur, tr))
   \<and> (find_best_change self cur orig = Inr (b, cur') \<and> position b = Some p
        \<and> \<not> (target_model_metric \<le> fst (calc_metrics self (cur[p := aa b]) hs)
              \<and> is_v_gene_score_less (Some target_v_gene_score)
                    (snd (calc_metrics self (cur[p := aa b]) hs))) \<longrightarrow>
      rounds self target_model_metric target_v_gene_score orig hs (it # its) (cur, tr) = Inr (cur, tr))"
proof (intro conjI impI)
  assume "annotate_single self sequence (annotation (model_wrapper self)) = None"
  then show "query self sequence target_model_metric target_v_gene_score human_sample
        = Inl (CannotBeAnnotated sequence)"
    by (simp add: query_def chimeric_seed_def)
next
  assume a: "chimeric_seed self sequence human_sample = Inr (original_seq, human_sample', seed)
        \<and> length (segmented_positions (annotation (model_wrapper self))) \<le> length original_seq"
  then have len: "length seed = length original_seq" using chimeric_seed_length by blast
  obtain r where "rounds self target_model_metric target_v_gene_score original_seq human_sample'
      [1..max_changes self]
      (seed, [\<lparr>it_index = 0, it_model_metric = fst (calc_metrics self seed human_sample'),
                it_v_gene_score = snd (calc_metrics self seed human_sample'), it_change = None\<rparr>]) = Inr r"
    using rounds_total [of self seed original_seq] a len by (metis)
  with a show "\<exists>s trail. query self sequence target_model_metric target_v_gene_score human_sample
         = Inr (s, trail)"
    by (cases r) (simp add: query_def Let_def case_prod_beta)
next
  show "rounds self target_model_metric target_v_gene_score orig hs [] (cur, tr) = Inr (cur, tr)"
    by simp
next
  assume "find_best_change self cur orig = Inr (b, cur') \<and> \<not> is_defined b"
  then show "rounds self target_model_metric target_v_gene_score orig hs (it # its) (cur, tr) = Inr (cur, tr)"
    by (simp add: round_body_no_candidate)
next
  assume "find_best_change self cur orig = Inr (b, cur') \<and> position b = Some p
        \<and> \<not> (target_model_metric \<le> fst (calc_metrics self (cur[p := aa b]) hs)
              \<and> is_v_gene_score_less (Some target_v_gene_score)
                    (snd (calc_metrics self (cur[p := aa b]) hs)))"
  then have "round_body self target_model_metric target_v_gene_score orig hs it (cur, tr)
      = Inr (Break (cur, tr))"
    by (intro round_body_gate_fails [of self cur orig b cur' p]) blast+
  then show "rounds self target_model_metric target_v_gene_score orig hs (it # its) (cur, tr) = Inr (cur, tr)"
    by simp
qed

theorem query_errors_witness:
  "query example_humanizer ''AAA'' (1 / 2) 0 (Some ''BABA'') = Inl (CannotBeAnnotated ''AAA'')
   \<and> (\<exists>s trail. query example_humanizer ''AAAA'' (1 / 2) 0 (Some ''BABA'') = Inr (s, trail))"
proof -
  let ?seed = "[PStr ''B'', PStr ''A'', PStr ''B'', PStr ''A'']"
  let ?orig = "[PStr ''A'', PStr ''A'', PStr ''A'', PStr ''A'']"
  have fails: "annotate_single example_humanizer ''AAA'' (annotation (model_wrapper example_humanizer)) = None"
    by code_simp
  have seed: "chimeric_seed example_humanizer ''AAAA'' (Some ''BABA'') = Inr (?orig, ?seed, ?seed)"
    by code_simp
  have len: "length (segmented_positions (annotation (model_wrapper example_humanizer))) \<le> length ?orig"
    by code_simp
  have "query example_humanizer ''AAA'' (1 / 2) 0 (Some ''BABA'') = Inl (CannotBeAnnotated ''AAA'')"
    using query_errors [of example_humanizer "''AAA''" "1 / 2" 0 "Some ''BABA''"] fails by blast
  moreover have "\<exists>s trail. query example_humanizer ''AAAA'' (1 / 2) 0 (Some ''BABA'') = Inr (s, trail)"
    using query_errors [of example_humanizer "''AAAA''" "1 / 2" 0 "Some ''BABA''" ?orig ?seed ?seed]
      seed len by blast
  ultimately show ?thesis by blast
qed

lemma unscored_query:
  "query unscored_humanizer ''AAAA'' (1 / 2) 0 (Some ''BABA'') = Inr (''AAAA'', unscored_trail)"
  by code_simp

text \<open>
  C2, as the code has it. In every trail returned by \<open>query\<close>, every record of
  an iteration \<open>\<ge> 1\<close> passed the gate of line 72: its model value is at least the
  target, and \<open>is_v_gene_score_less(target, score)\<close> holds of its V-gene score,
  that is, the score is absent or strictly greater than the target (so a
  present score is not less than the target). When the best candidate fails
  this gate, the round leaves the loop with the sequence as it was before the
  candidate was applied and with no record appended.
\<close>

theorem accepted_rounds_pass_gate:
  "(query self sequence target_model_metric target_v_gene_score human_sample = Inr (s, trail) \<longrightarrow>
      (\<forall>d \<in> set trail. 1 \<le> it_index d \<longrightarrow>
          target_model_metric \<le> it_model_metric d
          \<and> is_v_gene_score_less (Some target_v_gene_score) (it_v_gene_score d)
          \<and> (\<forall>v. it_v_gene_score d = Some v \<longrightarrow>
                target_v_gene_score < v \<and> \<not> is_v_gene_score_less (Some v) (Some target_v_gene_score))))
   \<and> (find_best_change self cur orig = Inr (b, cur') \<and> position b = Some p
        \<and> \<not> (target_model_metric \<le> fst (calc_metrics self (cur[p := aa b]) hs)
              \<and> is_v_gene_score_less (Some target_v_gene_score)
                    (snd (calc_metrics self (cur[p := aa b]) hs))) \<longrightarrow>
      round_body self target_model_metric target_v_gene_score orig hs it (cur, tr)
        = Inr (Break (cur, tr)))"
proof (intro conjI impI)
  assume q: "query self sequence target_model_metric target_v_gene_score human_sample = Inr (s, trail)"
  let ?ok = "\<lambda>d. 1 \<le> it_index d \<longrightarrow>
      target_model_metric \<le> it_model_metric d
      \<and> is_v_gene_score_less (Some target_v_gene_score) (it_v_gene_score d)"
  from q obtain orig' hs' seed where seed: "chimeric_seed self sequence human_sample = Inr (orig', hs', seed)"
    by (auto simp: query_def split: sum.splits)
  let ?r0 = "\<lparr>it_index = 0, it_model_metric = fst (calc_metrics self seed hs'),
     it_v_gene_score = snd (calc_metrics self seed hs'), it_change = None\<rparr>"
  from q seed obtain final where
    run: "rounds self target_model_metric target_v_gene_score orig' hs' [1..max_changes self] (seed, [?r0])
           = Inr (final, trail)"
    by (auto simp: query_def Let_def case_prod_beta split: sum.splits)
  let ?P = "\<lambda>st. \<forall>d \<in> set (snd st). ?ok d"
  have "?P (final, trail)"
  proof (rule rounds_invariant [OF run, where P = ?P])
    show "?P (seed, [?r0])" by simp
  next
    fix j a a'
    assume P: "?P a"
      and r: "round_body self target_model_metric target_v_gene_score orig' hs' j a = Inr (Next a')"
    from round_body_Next_record [of self target_model_metric target_v_gene_score orig' hs' j
        "fst a" "snd a" "fst a'" "snd a'"] r
    obtain d where "snd a' = snd a @ [d]" "target_model_metric \<le> it_model_metric d"
      "is_v_gene_score_less (Some target_v_gene_score) (it_v_gene_score d)"
      by auto
    with P show "?P a'" by auto
  qed
  then have ok: "\<forall>d \<in> set trail. ?ok d" by simp
  show "\<forall>d \<in> set trail. 1 \<le> it_index d \<longrightarrow>
          target_model_metric \<le> it_model_metric d
          \<and> is_v_gene_score_less (Some target_v_gene_score) (it_v_gene_score d)
          \<and> (\<forall>v. it_v_gene_score d = Some v \<longrightarrow>
                target_v_gene_score < v \<and> \<not> is_v_gene_score_less (Some v) (Some target_v_gene_score))"
    using ok by (auto simp: is_v_gene_score_less_def)
next
  assume "find_best_change self cur orig = Inr (b, cur') \<and> position b = Some p
        \<and> \<not> (target_model_metric \<le> fst (calc_metrics self (cur[p := aa b]) hs)
              \<and> is_v_gene_score_less (Some target_v_gene_score)
                    (snd (calc_metrics self (cur[p := aa b]) hs)))"
  then show "round_body self target_model_metric target_v_gene_score orig hs it (cur, tr)
        = Inr (Break (cur, tr))"
    by (intro round_body_gate_fails [of self cur orig b cur' p]) blast+
qed

theorem accepted_rounds_pass_gate_witness:
  "query example_humanizer ''AAAA'' (1 / 2) 0 (Some ''BABA'') = Inr (''AAAA'', example_trail)
   \<and> 1 / 2 \<le> it_model_metric (example_trail ! 2)
   \<and> is_v_gene_score_less (Some 0) (it_v_gene_score (example_trail ! 2))
   \<and> round_body example_humanizer (1 / 2) (3 / 5)
        [PStr ''A'', PStr ''A'', PStr ''A'', PStr ''A''] [PStr ''B'', PStr ''A'', PStr ''B'', PStr ''A'']
        2 ([PStr ''A'', PStr ''A'', PStr ''B'', PStr ''A''], take 2 example_trail)
       = Inr (Break ([PStr ''A'', PStr ''A'', PStr ''B'', PStr ''A''], take 2 example_trail))"
proof -
  let ?cur = "[PStr ''A'', PStr ''A'', PStr ''B'', PStr ''A'']"
  let ?orig = "[PStr ''A'', PStr ''A'', PStr ''A'', PStr ''A'']"
  let ?hs = "[PStr ''B'', PStr ''A'', PStr ''B'', PStr ''A'']"
  let ?b = "\<lparr>position = Some 2, old_aa = PStr ''B'', aa = PStr ''A'', change_value = 1\<rparr>"
  have mem: "example_trail ! 2 \<in> set example_trail" and idx: "1 \<le> it_index (example_trail ! 2)"
    by (simp_all add: example_trail_def)
  have gate: "1 / 2 \<le> it_model_metric (example_trail ! 2)
      \<and> is_v_gene_score_less (Some 0) (it_v_gene_score (example_trail ! 2))"
    using accepted_rounds_pass_gate [of example_humanizer "''AAAA''" "1 / 2" 0 "Some ''BABA''"
        "''AAAA''" example_trail] example_query mem idx
    by blast
  have best: "find_best_change example_humanizer ?cur ?orig = Inr (?b, ?cur)"
    by code_simp
  have pos: "position ?b = Some 2" by simp
  have fails: "\<not> (1 / 2 \<le> fst (calc_metrics example_humanizer (?cur[2 := aa ?b]) ?hs)
      \<and> is_v_gene_score_less (Some (3 / 5)) (snd (calc_metrics example_humanizer (?cur[2 := aa ?b]) ?hs)))"
    by code_simp
  have "round_body example_humanizer (1 / 2) (3 / 5) ?orig ?hs 2 (?cur, take 2 example_trail)
       = Inr (Break (?cur, take 2 example_trail))"
    using accepted_rounds_pass_gate [of example_humanizer _ "1 / 2" "3 / 5" _ _ _ ?cur ?orig ?b ?cur 2 ?hs
        2 "take 2 example_trail"] best pos fails
    by blast
  with gate example_query show ?thesis by simp
qed

text \<open>
  The statement "the V-gene score of an accepted record is not less than the
  target per \<open>is_v_gene_score_less\<close>" fails when \<open>_calc_metrics\<close> reports no
  score: the gate accepts the round, and the comparator calls the absent score
  less than the target.
\<close>

theorem accepted_round_with_absent_score:
  "query unscored_humanizer ''AAAA'' (1 / 2) 0 (Some ''BABA'') = Inr (''AAAA'', unscored_trail)
   \<and> unscored_trail ! 1 \<in> set unscored_trail
   \<and> it_index (unscored_trail ! 1) = 1
   \<and> is_v_gene_score_less (it_v_gene_score (unscored_trail ! 1)) (Some 0)"
  using unscored_query by (simp add: unscored_trail_def is_v_gene_score_less_def)

lemma find_best_loop_keeps_real:
  assumes dom: "\<forall>r n u. is_defined r \<and> \<not> is_defined n \<and> change_value n = - 1 \<and> - 1 < change_value r
                  \<longrightarrow> \<not> is_change_less self r n u"
    and prob: "\<forall>x. - 1 < predict_proba (model_wrapper self) x"
    and best: "is_defined best" "- 1 < change_value best"
    and run: "find_best_loop self ps cur orig best = Inr (b, cur')"
  shows "is_defined b \<and> - 1 < change_value b"
  using best run
proof (induction ps arbitrary: best)
  case Nil
  then show ?case by simp
next
  case (Cons q ps)
  obtain idx column_name where q: "q = (idx, column_name)" by (cases q)
  show ?case
  proof (cases "column_name \<in> set (skip_positions self)")
    case True
    with Cons.prems(3) q have "find_best_loop self ps cur orig best = Inr (b, cur')" by simp
    from Cons.IH [OF Cons.prems(1,2) this] show ?thesis .
  next
    case False
    with Cons.prems(3) q obtain c s where
      t: "test_single_change self cur idx (orig ! idx) = Inr (c, s)"
      and r: "find_best_loop self ps s orig
                (if is_change_less self best c (use_aa_similarity self) then c else best) = Inr (b, cur')"
      by (auto split: if_splits sum.splits)
    from test_single_change_cases [OF t] have s: "s = cur"
      and c: "if cur ! idx = orig ! idx
        then c = \<lparr>position = None, old_aa = orig ! idx, aa = PNone, change_value = - 1\<rparr>
        else c = \<lparr>position = Some idx, old_aa = cur ! idx, aa = orig ! idx,
                  change_value = predict_proba (model_wrapper self) (cur[idx := orig ! idx])\<rparr>"
      by simp_all
    let ?next = "if is_change_less self best c (use_aa_similarity self) then c else best"
    have "is_defined ?next \<and> - 1 < change_value ?next"
    proof (cases "cur ! idx = orig ! idx")
      case True
      with c have "\<not> is_defined c" "change_value c = - 1" by (simp_all add: is_defined_def)
      with dom Cons.prems(1,2) have "\<not> is_change_less self best c (use_aa_similarity self)" by blast
      with Cons.prems(1,2) show ?thesis by simp
    next
      case False
      with c prob have "is_defined c" "- 1 < change_value c" by (simp_all add: is_defined_def)
      with Cons.prems(1,2) show ?thesis by simp
    qed
    then have "is_defined ?next" "- 1 < change_value ?next" by simp_all
    from Cons.IH [OF this r [unfolded s]] show ?thesis .
  qed
qed

lemma rounds_reverts:
  assumes run: "rounds self t1 t2 orig hs its (cur, tr) = Inr (cur', tr')"
  shows "\<exists>ps. changed_positions tr' = changed_positions tr @ ps \<and> distinct ps
           \<and> length tr' = length tr + length ps
           \<and> set ps \<subseteq> set (differing_positions cur orig)
           \<and> set (differing_positions cur' orig) = set (differing_positions cur orig) - set ps
           \<and> length (differing_positions cur' orig) + length ps = length (differing_positions cur orig)"
proof -
  let ?D = "differing_positions cur orig"
  let ?P = "\<lambda>st. \<exists>ps. changed_positions (snd st) = changed_positions tr @ ps \<and> distinct ps
           \<and> length (snd st) = length tr + length ps
           \<and> set ps \<subseteq> set ?D
           \<and> set (differing_positions (fst st) orig) = set ?D - set ps
           \<and> length (differing_positions (fst st) orig) + length ps = length ?D"
  have "?P (cur', tr')"
  proof (rule rounds_invariant [OF run, where P = ?P])
    show "?P (cur, tr)" by simp
  next
    fix j a a'
    assume P: "?P a" and r: "round_body self t1 t2 orig hs j a = Inr (Next a')"
    obtain c t where a: "a = (c, t)" by (cases a)
    from P a obtain ps where ps: "changed_positions t = changed_positions tr @ ps" "distinct ps"
      "length t = length tr + length ps" "set ps \<subseteq> set ?D"
      "set (differing_positions c orig) = set ?D - set ps"
      "length (differing_positions c orig) + length ps = length ?D"
      by auto
    from round_body_cases [OF r [unfolded a]] obtain b p d where
      rc: "real_change self c orig b p"
      and a': "a' = (c[p := orig ! p], t @ [d])" and d: "it_change d = Some b"
      by auto
    from rc have p: "p < length c" "p < length orig" "c ! p \<noteq> orig ! p" "position b = Some p"
      by (simp_all add: real_change_def)
    note rev = differing_positions_revert [OF p(1,2,3)]
    have cp: "changed_positions (t @ [d]) = changed_positions tr @ (ps @ [p])"
      using ps(1) d p(4) by (simp add: changed_positions_append)
    have pin: "p \<in> set ?D" "p \<notin> set ps" using rev(1) ps(5) by auto
    have "distinct (ps @ [p])" using ps(2) pin by simp
    moreover have "length (t @ [d]) = length tr + length (ps @ [p])" using ps(3) by simp
    moreover have "set (ps @ [p]) \<subseteq> set ?D" using ps(4) pin by simp
    moreover have "set (differing_positions (c[p := orig ! p]) orig) = set ?D - set (ps @ [p])"
      using rev(2) ps(5) by auto
    moreover have "length (differing_positions (c[p := orig ! p]) orig) + length (ps @ [p]) = length ?D"
      using rev(3) ps(6) by simp
    ultimately show "?P a'" unfolding a' using cp by (intro exI [of _ "ps @ [p]"]) simp
  qed
  then show ?thesis by simp
qed

lemma example_comparator_dominance:
  "\<forall>r n u. is_defined r \<and> \<not> is_defined n \<and> change_value n = - 1 \<and> - 1 < change_value r
      \<longrightarrow> \<not> is_change_less example_humanizer r n u"
  by (simp add: example_humanizer_def)

lemma example_model_probability: "\<forall>x. - 1 < predict_proba (model_wrapper example_humanizer) x"
proof
  fix x
  have "0 \<le> example_model x" by (simp add: example_model_def)
  then show "- 1 < predict_proba (model_wrapper example_humanizer) x"
    by (simp add: example_humanizer_def)
qed

text \<open>
  C3. At a position where the current sequence holds the original token,
  \<open>_test_single_change\<close> yields the null change (position none, value \<open>-1\<close>);
  under a comparator with the null-change dominance of the specification and
  a model whose values exceed \<open>-1\<close>, a real best change is never replaced by a
  null candidate. A round that goes on reverts exactly one differing position
  to the original token, which removes exactly that position from the
  differing ones; a round that leaves the loop changes nothing. Over a run
  the changed positions are distinct, each was a differing position at the
  start, and the differing positions at the end are those at the start
  without the changed ones, one less per record appended.
\<close>

theorem search_reverts_one_position_per_round:
  "(column_idx < length sequence \<and> sequence ! column_idx = new_aa \<longrightarrow>
      test_single_change self sequence column_idx new_aa
        = Inr (\<lparr>position = None, old_aa = new_aa, aa = PNone, change_value = - 1\<rparr>, sequence))
   \<and> ((\<forall>r n u. is_defined r \<and> \<not> is_defined n \<and> change_value n = - 1 \<and> - 1 < change_value r
                  \<longrightarrow> \<not> is_change_less self r n u)
        \<and> (\<forall>x. - 1 < predict_proba (model_wrapper self) x)
        \<and> is_defined best \<and> - 1 < change_value best
        \<and> find_best_loop self ps cur orig best = Inr (b, cur'') \<longrightarrow>
      is_defined b)
   \<and> (round_body self t1 t2 orig hs it (cur, tr) = Inr (Next (cur', tr')) \<longrightarrow>
      (\<exists>p d. p \<in> set (differing_positions cur orig) \<and> cur' = cur[p := orig ! p]
         \<and> tr' = tr @ [d] \<and> changed_positions [d] = [p]
         \<and> set (differing_positions cur' orig) = set (differing_positions cur orig) - {p}
         \<and> Suc (length (differing_positions cur' orig)) = length (differing_positions cur orig)))
   \<and> (round_body self t1 t2 orig hs it (cur, tr) = Inr (Break (cur', tr')) \<longrightarrow>
      cur' = cur \<and> tr' = tr)
   \<and> (rounds self t1 t2 orig hs its (cur, tr) = Inr (cur', tr') \<longrightarrow>
      (\<exists>ps. changed_positions tr' = changed_positions tr @ ps \<and> distinct ps
         \<and> length tr' = length tr + length ps
         \<and> set ps \<subseteq> set (differing_positions cur orig)
         \<and> set (differing_positions cur' orig) = set (differing_positions cur orig) - set ps
         \<and> length (differing_positions cur' orig) + length ps
             = length (differing_positions cur orig)))"
proof (intro conjI impI)
  assume "column_idx < length sequence \<and> sequence ! column_idx = new_aa"
  then show "test_single_change self sequence column_idx new_aa
        = Inr (\<lparr>position = None, old_aa = new_aa, aa = PNone, change_value = - 1\<rparr>, sequence)"
    by (simp add: test_single_change_def)
next
  assume "(\<forall>r n u. is_defined r \<and> \<not> is_defined n \<and> change_value n = - 1 \<and> - 1 < change_value r
                  \<longrightarrow> \<not> is_change_less self r n u)
        \<and> (\<forall>x. - 1 < predict_proba (model_wrapper self) x)
        \<and> is_defined best \<and> - 1 < change_value best
        \<and> find_best_loop self ps cur orig best = Inr (b, cur'')"
  then show "is_defined b"
    using find_best_loop_keeps_real [of self best ps cur orig b cur''] by blast
next
  assume r: "round_body self t1 t2 orig hs it (cur, tr) = Inr (Next (cur', tr'))"
  from round_body_cases [OF r] obtain b p d where
    rc: "real_change self cur orig b p"
    and c: "cur' = cur[p := orig ! p]" and t: "tr' = tr @ [d]" and d: "it_change d = Some b"
    by auto
  from rc have p: "p < length cur" "p < length orig" "cur ! p \<noteq> orig ! p" "position b = Some p"
    by (simp_all add: real_change_def)
  note rev = differing_positions_revert [OF p(1,2,3)]
  have "changed_positions [d] = [p]" using d p(4) by simp
  with rev c t show "\<exists>p d. p \<in> set (differing_positions cur orig) \<and> cur' = cur[p := orig ! p]
         \<and> tr' = tr @ [d] \<and> changed_positions [d] = [p]
         \<and> set (differing_positions cur' orig) = set (differing_positions cur orig) - {p}
         \<and> Suc (length (differing_positions cur' orig)) = length (differing_positions cur orig)"
    by blast
next
  assume "round_body self t1 t2 orig hs it (cur, tr) = Inr (Break (cur', tr'))"
  then have "(cur', tr') = (cur, tr)" by (rule round_body_Break)
  then show "cur' = cur" and "tr' = tr" by simp_all
next
  assume "rounds self t1 t2 orig hs its (cur, tr) = Inr (cur', tr')"
  then show "\<exists>ps. changed_positions tr' = changed_positions tr @ ps \<and> distinct ps
         \<and> length tr' = length tr + length ps
         \<and> set ps \<subseteq> set (differing_positions cur orig)
         \<and> set (differing_positions cur' orig) = set (differing_positions cur orig) - set ps
         \<and> length (differing_positions cur' orig) + length ps
             = length (differing_positions cur orig)"
    by (rule rounds_reverts)
qed


theorem search_reverts_one_position_per_round_witness:
  "test_single_change example_humanizer [PStr ''B'', PStr ''A'', PStr ''B'', PStr ''A''] 1 (PStr ''A'')
     = Inr (\<lparr>position = None, old_aa = PStr ''A'', aa = PNone, change_value = - 1\<rparr>,
            [PStr ''B'', PStr ''A'', PStr ''B'', PStr ''A''])
   \<and> is_defined \<lparr>position = Some 0, old_aa = PStr ''B'', aa = PStr ''A'', change_value = 3 / 4\<rparr>
   \<and> (\<exists>p. p \<in> set (differing_positions [PStr ''B'', PStr ''A'', PStr ''B'', PStr ''A'']
                       [PStr ''A'', PStr ''A'', PStr ''A'', PStr ''A''])
          \<and> set (differing_positions [PStr ''A'', PStr ''A'', PStr ''B'', PStr ''A'']
                       [PStr ''A'', PStr ''A'', PStr ''A'', PStr ''A''])
              = set (differing_positions [PStr ''B'', PStr ''A'', PStr ''B'', PStr ''A'']
                       [PStr ''A'', PStr ''A'', PStr ''A'', PStr ''A'']) - {p})
   \<and> (\<exists>qs. distinct qs \<and> length qs = 2
          \<and> set (differing_positions [PStr ''A'', PStr ''A'', PStr ''A'', PStr ''A'']
                       [PStr ''A'', PStr ''A'', PStr ''A'', PStr ''A''])
              = set (differing_positions [PStr ''B'', PStr ''A'', PStr ''B'', PStr ''A'']
                       [PStr ''A'', PStr ''A'', PStr ''A'', PStr ''A'']) - set qs)"
proof -
  let ?seed = "[PStr ''B'', PStr ''A'', PStr ''B'', PStr ''A'']"
  let ?cur1 = "[PStr ''A'', PStr ''A'', PStr ''B'', PStr ''A'']"
  let ?orig = "[PStr ''A'', PStr ''A'', PStr ''A'', PStr ''A'']"
  let ?c0 = "\<lparr>position = Some 0, old_aa = PStr ''B'', aa = PStr ''A'', change_value = 3 / 4\<rparr>"
  note th = search_reverts_one_position_per_round [where self = example_humanizer
      and sequence = ?seed and column_idx = 1 and new_aa = "PStr ''A''"
      and best = ?c0 and ps = "[(1, ''cdr1_1''), (2, ''fwr2_1''), (3, ''cdr2_1'')]"
      and cur = ?seed and orig = ?orig and b = ?c0 and cur'' = ?seed
      and ?t1.0 = "1 / 2" and ?t2.0 = 0 and hs = ?seed and tr = "take 1 example_trail"]
  have null: "test_single_change example_humanizer ?seed 1 (PStr ''A'')
     = Inr (\<lparr>position = None, old_aa = PStr ''A'', aa = PNone, change_value = - 1\<rparr>, ?seed)"
    using th by simp
  have loop: "find_best_loop example_humanizer [(1, ''cdr1_1''), (2, ''fwr2_1''), (3, ''cdr2_1'')]
      ?seed ?orig ?c0 = Inr (?c0, ?seed)"
    by code_simp
  have start: "is_defined ?c0" "- 1 < change_value ?c0"
    by (simp_all add: is_defined_def)
  have kept: "is_defined ?c0"
    using th example_comparator_dominance example_model_probability start loop by blast
  have round1: "round_body example_humanizer (1 / 2) 0 ?orig ?seed 1 (?seed, take 1 example_trail)
      = Inr (Next (?cur1, take 2 example_trail))"
    by code_simp
  have one: "\<exists>p. p \<in> set (differing_positions ?seed ?orig)
      \<and> set (differing_positions ?cur1 ?orig) = set (differing_positions ?seed ?orig) - {p}"
    using th [of 1 ?cur1 "take 2 example_trail"] round1 by blast
  have run: "rounds example_humanizer (1 / 2) 0 ?orig ?seed [1..10] (?seed, take 1 example_trail)
      = Inr (?orig, example_trail)"
    by code_simp
  have "\<exists>qs. distinct qs \<and> length example_trail = length (take 1 example_trail) + length qs
      \<and> set (differing_positions ?orig ?orig) = set (differing_positions ?seed ?orig) - set qs"
    using th [of _ ?orig example_trail "[1..10]"] run by blast
  then have all: "\<exists>qs. distinct qs \<and> length qs = 2
      \<and> set (differing_positions ?orig ?orig) = set (differing_positions ?seed ?orig) - set qs"
    by (auto simp: example_trail_def numeral_2_eq_2 eq_commute [of "Suc (Suc 0)"])
  from null kept one all show ?thesis by blast
qed

section \<open>Errors and the choice of the human sample\<close>







lemma from_v_gene_scorer_shape:
  assumes "from_v_gene_scorer self cur = Inr hs"
  shows "\<exists>scorer sample score label other.
           v_gene_scorer self = Some scorer
           \<and> VGeneScorer_query scorer cur = Inr [(sample, score, label), other]
           \<and> hs = [PStr sample, PFloat score, PStr label]"
  using assms
  by (auto simp: from_v_gene_scorer_def unpack_pair_def
      split: option.splits sum.splits list.splits prod.splits)












text \<open>
  C1. What the code does without an explicit human sample. The scorer returns
  a list of (sample, score, label) entries; the unpacking binds its first
  entry, not the entry's sample, to \<open>human_sample\<close>, and the loop over the
  framework columns subscripts that entry. On the schema of four positions
  the seed gets the whole sample \<open>BABA\<close> at position 0 and the label at
  position 2, where the sample's tokens were due (the seed \<open>BABA\<close>, which the
  explicit sample \<open>BABA\<close> gives); on the schema of ten positions a framework
  column of index 5 makes the subscript raise \<open>IndexError\<close>.
\<close>

theorem seed_from_scorer_subscripts_result_entry:
  "VGeneScorer_query small_scorer [PStr ''A'', PStr ''A'', PStr ''A'', PStr ''A'']
     = Inr [(''BABA'', 1 / 2, ''IGHV1''), (''BBBB'', 0, ''IGHV2'')]
   \<and> chimeric_seed example_humanizer ''AAAA'' None
     = Inr ([PStr ''A'', PStr ''A'', PStr ''A'', PStr ''A''],
            [PStr ''BABA'', PFloat (1 / 2), PStr ''IGHV1''],
            [PStr ''BABA'', PStr ''A'', PStr ''IGHV1'', PStr ''A''])
   \<and> chimeric_seed example_humanizer ''AAAA'' (Some ''BABA'')
     = Inr ([PStr ''A'', PStr ''A'', PStr ''A'', PStr ''A''],
            [PStr ''B'', PStr ''A'', PStr ''B'', PStr ''A''],
            [PStr ''B'', PStr ''A'', PStr ''B'', PStr ''A''])
   \<and> VGeneScorer_query example_scorer example_sequence
     = Inr [(''AAAAAAAAAC'', 9 / 10, ''IGHV1''), (''CAAAAAAAAA'', 9 / 10, ''IGHV3'')]
   \<and> query wide_humanizer ''AAAAAAAAAA'' (1 / 2) 0 None = Inl IndexError"
  by code_simp

end
